theory Spec2Isabelle
  imports Complex_Main "HOL-Library.Word" "HOL-Library.AList"
begin

unbundle bit_operations_syntax

section \<open>KubeSight: the approximate query engine\<close>

text \<open>
  A shallow embedding of the sketches (internal/probabilistic), the samplers
  (internal/sampling) and the query engine (internal/engine) of KubeSight.

  Conventions of the embedding.
  \<^item> Go's \<open>uint8\<close>, \<open>uint32\<close>, \<open>uint64\<close> are \<open>8 word\<close>, \<open>32 word\<close>, \<open>64 word\<close>; arithmetic
    wraps as in Go. Go's \<open>int\<close> is \<open>int\<close> where only comparisons and small sums are made.
    \<open>[]byte\<close> is \<open>8 word list\<close>, a Go \<open>string\<close> is a \<open>string\<close>.
  \<^item> A run-time panic, a blocked lock and a returned \<open>error\<close> are values of the type
    \<open>error\<close>; a method that mutates its receiver returns the new receiver.
  \<^item> \<open>float64\<close> values are modelled by the real numbers they denote (rounding, infinities
    and NaN are outside the model) except for the result of \<open>strconv.ParseFloat\<close>, which
    keeps its special values. A decimal constant of the source is the \<open>float64\<close> value
    nearest to it, which is what the compiled code compares and computes with.
  \<^item> A draw from a random source is an explicit argument of the operation that draws.
  \<^item> The mutexes only serialise the methods; single calls are modelled as atomic steps.
    The one place where a method takes two locks (\<open>Union\<close>) is modelled on a store of
    objects, so that the receiver and the argument may be the same object.
\<close>

datatype error =
    DivideByZero              \<comment> \<open>panic: integer divide by zero\<close>
  | IndexOutOfRange           \<comment> \<open>panic: index out of range\<close>
  | MakesliceCapOutOfRange    \<comment> \<open>panic: makeslice: cap out of range\<close>
  | InvalidArgumentToIntn     \<comment> \<open>panic of \<open>rand.Intn\<close> for \<open>n \<le> 0\<close>\<close>
  | NilDereference            \<comment> \<open>panic: nil pointer dereference\<close>
  | Deadlock                  \<comment> \<open>the call blocks for ever on a lock it holds itself\<close>
  | ErrBloomParameters        \<comment> \<open>cannot union bloom filters with different parameters\<close>
  | ErrInvalidPercentile
  | ImplementationDependent   \<comment> \<open>conversion of a NaN to \<open>int\<close>\<close>

subsection \<open>Constants of type float64\<close>

text \<open>
  The \<open>float64\<close> values of the decimal constants \<open>0.8\<close>, \<open>0.85\<close>, \<open>0.9\<close>, \<open>0.001\<close>,
  \<open>0.673\<close>, \<open>0.697\<close>, \<open>0.709\<close>, \<open>0.7213\<close> and \<open>1.079\<close> of the source, as fractions.
  The constants \<open>2.0\<close>, \<open>2.5\<close>, \<open>3.0\<close>, \<open>100.0\<close> and \<open>1000.0\<close> are exact.
\<close>

definition f64_0_8 :: real where
  "f64_0_8 = 3602879701896397 / 4503599627370496"

definition f64_0_85 :: real where
  "f64_0_85 = 7656119366529843 / 9007199254740992"

definition f64_0_9 :: real where
  "f64_0_9 = 8106479329266893 / 9007199254740992"

definition f64_0_001 :: real where
  "f64_0_001 = 1152921504606847 / 1152921504606846976"

definition f64_0_673 :: real where
  "f64_0_673 = 378865318652543 / 562949953421312"

definition f64_0_697 :: real where
  "f64_0_697 = 6278017880554471 / 9007199254740992"

definition f64_0_709 :: real where
  "f64_0_709 = 6386104271611363 / 9007199254740992"

definition f64_0_7213 :: real where
  "f64_0_7213 = 3248446411222339 / 4503599627370496"

definition f64_1_079 :: real where
  "f64_1_079 = 4859383997932765 / 4503599627370496"

subsection \<open>Hashing (Go's hash/fnv)\<close>

text \<open>FNV-1a, 64 bit: \<open>fnv.New64a\<close>, \<open>Write\<close>, \<open>Sum64\<close>.\<close>

definition fnv64a :: "8 word list \<Rightarrow> 64 word" where
  "fnv64a data = foldl (\<lambda>h c. (h XOR ucast c) * 1099511628211) 14695981039346656037 data"

text \<open>FNV-1a and FNV-1, 32 bit: \<open>fnv.New32a\<close> and \<open>fnv.New32\<close>.\<close>

definition fnv32a :: "8 word list \<Rightarrow> 32 word" where
  "fnv32a data = foldl (\<lambda>h c. (h XOR ucast c) * 16777619) 2166136261 data"

definition fnv32 :: "8 word list \<Rightarrow> 32 word" where
  "fnv32 data = foldl (\<lambda>h c. (h * 16777619) XOR ucast c) 2166136261 data"

text \<open>The conversion \<open>[]byte(s)\<close> of a string.\<close>

definition bytes_of :: "string \<Rightarrow> 8 word list" where
  "bytes_of s = map (\<lambda>c. word_of_nat (of_char c)) s"

subsection \<open>Cardinality sketch: HyperLogLog\<close>

record HyperLogLog =
  hll_precision :: "8 word"
  hll_m :: "32 word"
  hll_buckets :: "8 word list"
  hll_alpha :: real

definition calculateAlpha :: "32 word \<Rightarrow> real" where
  "calculateAlpha m =
     (if m = 16 then f64_0_673
      else if m = 32 then f64_0_697
      else if m = 64 then f64_0_709
      else f64_0_7213 / (1 + f64_1_079 / real (unat m)))"

definition NewHyperLogLog :: "8 word \<Rightarrow> HyperLogLog" where
  "NewHyperLogLog precision =
     (let precision = (if precision < 4 \<or> precision > 16 then 14 else precision);
          m = push_bit (unat precision) (1 :: 32 word)
      in \<lparr>hll_precision = precision, hll_m = m,
          hll_buckets = replicate (unat m) 0, hll_alpha = calculateAlpha m\<rparr>)"

definition hashBytes :: "8 word list \<Rightarrow> 64 word" where
  "hashBytes data = fnv64a data"

definition countLeadingZeros :: "64 word \<Rightarrow> int" where
  "countLeadingZeros x =
     (if x = 0 then 64
      else
        let n = 0;
            (n, x) = (if x \<le> 0x00000000FFFFFFFF then (n + 32, push_bit 32 x) else (n, x));
            (n, x) = (if x \<le> 0x0000FFFFFFFFFFFF then (n + 16, push_bit 16 x) else (n, x));
            (n, x) = (if x \<le> 0x00FFFFFFFFFFFFFF then (n + 8, push_bit 8 x) else (n, x));
            (n, x) = (if x \<le> 0x0FFFFFFFFFFFFFFF then (n + 4, push_bit 4 x) else (n, x));
            (n, x) = (if x \<le> 0x3FFFFFFFFFFFFFFF then (n + 2, push_bit 2 x) else (n, x));
            n = (if x \<le> 0x7FFFFFFFFFFFFFFF then n + 1 else n)
        in n)"

text \<open>
  \<open>HyperLogLog.Add\<close>. \<open>hll_rank\<close> is the value of the local \<open>leadingZeros\<close>,
  \<open>hll_index\<close> the value of \<open>bucketIdx\<close>.
\<close>

definition hll_index :: "HyperLogLog \<Rightarrow> 64 word \<Rightarrow> 64 word" where
  "hll_index hll hash = drop_bit (unat ((64 :: 8 word) - hll_precision hll)) hash"

definition hll_rank :: "HyperLogLog \<Rightarrow> 64 word \<Rightarrow> 8 word" where
  "hll_rank hll hash =
     (let w = push_bit (unat (hll_precision hll)) hash
      in if w \<noteq> 0 then word_of_int (countLeadingZeros w) + 1 else 1)"

definition HLL_Add :: "HyperLogLog \<Rightarrow> 8 word list \<Rightarrow> error + HyperLogLog" where
  "HLL_Add hll data =
     (let hash = hashBytes data;
          bucketIdx = unat (hll_index hll hash);
          leadingZeros = hll_rank hll hash
      in if bucketIdx < length (hll_buckets hll)
         then (if leadingZeros > hll_buckets hll ! bucketIdx
               then Inr (hll\<lparr>hll_buckets := (hll_buckets hll)[bucketIdx := leadingZeros]\<rparr>)
               else Inr hll)
         else Inl IndexOutOfRange)"

subsection \<open>Measurement records (pkg/metrics)\<close>

text \<open>
  \<open>time.Time\<close> is the number of nanoseconds since the zero time, \<open>time.Duration\<close> a
  number of nanoseconds.
\<close>

record MetricPoint =
  Timestamp :: int
  ClusterID :: string
  Namespace :: string
  PodName :: string
  ContainerName :: string
  MetricName :: string
  Value :: real
  Unit :: string
  Labels :: "string \<rightharpoonup> string"

definition IsAnomaly :: "MetricPoint \<Rightarrow> bool" where
  "IsAnomaly mp =
     (if MetricName mp = ''cpu_usage'' \<and> Value mp > f64_0_9 then True
      else if MetricName mp = ''memory_usage'' \<and> Value mp > f64_0_85 then True
      else if MetricName mp = ''pod_restarts'' \<and> Value mp > 3 then True
      else False)"

subsection \<open>Plain reservoir sampler\<close>

text \<open>
  \<open>rng.Intn n\<close>: panics for \<open>n \<le> 0\<close>, and otherwise returns a number of \<open>[0, n)\<close>
  determined by the state of the generator, here the raw draw \<open>r\<close>.
\<close>

definition Intn :: "int \<Rightarrow> nat \<Rightarrow> error + int" where
  "Intn n r = (if n \<le> 0 then Inl InvalidArgumentToIntn else Inr (int r mod n))"

record ReservoirSampler =
  rs_capacity :: int
  rs_samples :: "MetricPoint list"
  rs_count :: "64 word"

text \<open>\<open>make\<close> panics on a negative capacity; the limits of allocation are not modelled.\<close>

definition NewReservoirSampler :: "int \<Rightarrow> error + ReservoirSampler" where
  "NewReservoirSampler capacity =
     (if capacity < 0 then Inl MakesliceCapOutOfRange
      else Inr \<lparr>rs_capacity = capacity, rs_samples = [], rs_count = 0\<rparr>)"

text \<open>
  \<open>ReservoirSampler.Add\<close> with the raw draw \<open>r\<close> of its generator. The result is the
  new reservoir and the returned pointer (\<open>None\<close> for \<open>nil\<close>); the stored sample and the
  returned one are the same copy of the record.
\<close>

definition RS_Add ::
  "ReservoirSampler \<Rightarrow> MetricPoint \<Rightarrow> nat \<Rightarrow> error + (ReservoirSampler \<times> MetricPoint option)" where
  "RS_Add rs metric r =
     (let rs = rs\<lparr>rs_count := rs_count rs + 1\<rparr>
      in if int (length (rs_samples rs)) < rs_capacity rs
         then Inr (rs\<lparr>rs_samples := rs_samples rs @ [metric]\<rparr>, Some metric)
         else (case Intn (sint (rs_count rs)) r of
                 Inl e \<Rightarrow> Inl e
               | Inr randomIndex \<Rightarrow>
                   if randomIndex < rs_capacity rs
                   then (if nat randomIndex < length (rs_samples rs)
                         then Inr (rs\<lparr>rs_samples := (rs_samples rs)[nat randomIndex := metric]\<rparr>,
                                   Some metric)
                         else Inl IndexOutOfRange)
                   else Inr (rs, None)))"

definition RS_Size :: "ReservoirSampler \<Rightarrow> int" where
  "RS_Size rs = int (length (rs_samples rs))"

text \<open>A sequence of \<open>Add\<close> calls, each with its record and its draw; a panic ends it.\<close>

fun RS_Adds :: "ReservoirSampler \<Rightarrow> (MetricPoint \<times> nat) list \<Rightarrow> error + ReservoirSampler" where
  "RS_Adds rs [] = Inr rs"
| "RS_Adds rs ((metric, r) # rest) =
     (case RS_Add rs metric r of
        Inl e \<Rightarrow> Inl e
      | Inr (rs', sampled) \<Rightarrow> RS_Adds rs' rest)"

subsection \<open>Weighted reservoir sampler\<close>

record WeightedSample =
  ws_Metric :: MetricPoint
  ws_Weight :: real
  ws_Key :: real

record WeightedReservoirSampler =
  wrs_capacity :: int
  wrs_samples :: "WeightedSample list"

definition NewWeightedReservoirSampler :: "int \<Rightarrow> error + WeightedReservoirSampler" where
  "NewWeightedReservoirSampler capacity =
     (if capacity < 0 then Inl MakesliceCapOutOfRange
      else Inr \<lparr>wrs_capacity = capacity, wrs_samples = []\<rparr>)"

text \<open>The scan for the smallest key: the pair \<open>(minIdx, minKey)\<close> after the loop.\<close>

definition min_key_scan :: "WeightedSample list \<Rightarrow> nat \<times> real" where
  "min_key_scan samples =
     foldl (\<lambda>(minIdx, minKey) i.
              if ws_Key (samples ! i) < minKey then (i, ws_Key (samples ! i))
              else (minIdx, minKey))
           (0, ws_Key (samples ! 0)) [1..<length samples]"

text \<open>
  \<open>WeightedReservoirSampler.AddWeighted\<close> with the draw \<open>u\<close> of \<open>rng.Float64()\<close>.
  The Go method has no result; the model returns the new state, or the panic.
\<close>

definition AddWeighted ::
  "WeightedReservoirSampler \<Rightarrow> MetricPoint \<Rightarrow> real \<Rightarrow> real \<Rightarrow> error + WeightedReservoirSampler" where
  "AddWeighted wrs metric weight u =
     (if weight \<le> 0 then Inr wrs
      else
        let key = u powr (1 / weight);
            sample = \<lparr>ws_Metric = metric, ws_Weight = weight, ws_Key = key\<rparr>
        in if int (length (wrs_samples wrs)) < wrs_capacity wrs
           then Inr (wrs\<lparr>wrs_samples := wrs_samples wrs @ [sample]\<rparr>)
           else if wrs_samples wrs = [] then Inl IndexOutOfRange
           else
             let (minIdx, minKey) = min_key_scan (wrs_samples wrs)
             in if key > minKey
                then Inr (wrs\<lparr>wrs_samples := (wrs_samples wrs)[minIdx := sample]\<rparr>)
                else Inr wrs)"

text \<open>A record used in the examples.\<close>

definition example_metric :: "string \<Rightarrow> MetricPoint" where
  "example_metric pod =
     \<lparr>Timestamp = 1000, ClusterID = ''c'', Namespace = ''n'', PodName = pod,
      ContainerName = ''k'', MetricName = ''m'', Value = 1 / 2, Unit = ''u'',
      Labels = Map.empty\<rparr>"

subsection \<open>Membership sketch: Bloom filter\<close>

record BloomFilter =
  bf_bits :: "bool list"
  bf_size :: "32 word"
  bf_numHashes :: "32 word"
  bf_numItems :: "32 word"

definition NewBloomFilter :: "32 word \<Rightarrow> 32 word \<Rightarrow> BloomFilter" where
  "NewBloomFilter sz numHashes =
     \<lparr>bf_bits = replicate (unat sz) False, bf_size = sz,
      bf_numHashes = numHashes, bf_numItems = 0\<rparr>"

definition hash1 :: "8 word list \<Rightarrow> 32 word" where
  "hash1 data = fnv32a data"

definition hash2 :: "8 word list \<Rightarrow> 32 word" where
  "hash2 data = (let hash = fnv32 data in if hash mod 2 = 0 then hash + 1 else hash)"

definition getHashes :: "BloomFilter \<Rightarrow> 8 word list \<Rightarrow> 32 word list" where
  "getHashes bf data =
     map (\<lambda>i. hash1 data + word_of_nat i * hash2 data) [0..<unat (bf_numHashes bf)]"

text \<open>The loop of \<open>Add\<close> over the hashes: \<open>index := hash % bf.size; bf.bits[index] = true\<close>.\<close>

fun set_bits :: "bool list \<Rightarrow> 32 word \<Rightarrow> 32 word list \<Rightarrow> error + bool list" where
  "set_bits bits sz [] = Inr bits"
| "set_bits bits sz (hash # hashes) =
     (if sz = 0 then Inl DivideByZero
      else if unat (hash mod sz) < length bits
           then set_bits (bits[unat (hash mod sz) := True]) sz hashes
           else Inl IndexOutOfRange)"

definition BF_Add :: "BloomFilter \<Rightarrow> 8 word list \<Rightarrow> error + BloomFilter" where
  "BF_Add bf item =
     (case set_bits (bf_bits bf) (bf_size bf) (getHashes bf item) of
        Inl e \<Rightarrow> Inl e
      | Inr bits \<Rightarrow> Inr (bf\<lparr>bf_bits := bits, bf_numItems := bf_numItems bf + 1\<rparr>))"

text \<open>The loop of \<open>Contains\<close>, which returns \<open>false\<close> at the first clear bit.\<close>

fun all_bits_set :: "bool list \<Rightarrow> 32 word \<Rightarrow> 32 word list \<Rightarrow> error + bool" where
  "all_bits_set bits sz [] = Inr True"
| "all_bits_set bits sz (hash # hashes) =
     (if sz = 0 then Inl DivideByZero
      else if unat (hash mod sz) < length bits
           then (if \<not> bits ! unat (hash mod sz) then Inr False
                 else all_bits_set bits sz hashes)
           else Inl IndexOutOfRange)"

definition BF_Contains :: "BloomFilter \<Rightarrow> 8 word list \<Rightarrow> error + bool" where
  "BF_Contains bf item = all_bits_set (bf_bits bf) (bf_size bf) (getHashes bf item)"

fun BF_Adds :: "BloomFilter \<Rightarrow> 8 word list list \<Rightarrow> error + BloomFilter" where
  "BF_Adds bf [] = Inr bf"
| "BF_Adds bf (item # items) =
     (case BF_Add bf item of Inl e \<Rightarrow> Inl e | Inr bf' \<Rightarrow> BF_Adds bf' items)"

text \<open>
  \<open>Union\<close> works on two filter objects, which may be the same one. The store maps
  the address of an object to its state. After the comparison of the parameters the
  method takes the write lock of the receiver and then the read lock of the argument;
  on one and the same object the second lock is never granted (Go's \<open>sync.RWMutex\<close>
  is not reentrant), so that the call never returns.
\<close>

type_synonym bloom_store = "nat \<rightharpoonup> BloomFilter"

fun or_bits :: "bool list \<Rightarrow> bool list \<Rightarrow> nat list \<Rightarrow> error + bool list" where
  "or_bits bits other [] = Inr bits"
| "or_bits bits other (i # is) =
     (if i < length bits \<and> i < length other
      then or_bits (bits[i := (bits ! i \<or> other ! i)]) other is
      else Inl IndexOutOfRange)"

definition BF_Union :: "bloom_store \<Rightarrow> nat \<Rightarrow> nat \<Rightarrow> error + bloom_store" where
  "BF_Union st bf other =
     (case (st bf, st other) of
        (Some a, Some b) \<Rightarrow>
          if bf_size a \<noteq> bf_size b \<or> bf_numHashes a \<noteq> bf_numHashes b
          then Inl ErrBloomParameters
          else if bf = other then Inl Deadlock
          else (case or_bits (bf_bits a) (bf_bits b) [0..<unat (bf_size a)] of
                  Inl e \<Rightarrow> Inl e
                | Inr bits \<Rightarrow>
                    Inr (st(bf \<mapsto> a\<lparr>bf_bits := bits,
                                      bf_numItems := bf_numItems a + bf_numItems b\<rparr>)))
      | _ \<Rightarrow> Inl NilDereference)"

subsection \<open>Frequency sketch: Count-Min\<close>

record CountMinSketch =
  cms_width :: "32 word"
  cms_depth :: "32 word"
  cms_count :: "32 word list list"
  cms_hashA :: "32 word list"
  cms_hashB :: "32 word list"
  cms_total :: "64 word"

definition NewCountMinSketch :: "32 word \<Rightarrow> 32 word \<Rightarrow> CountMinSketch" where
  "NewCountMinSketch width depth =
     \<lparr>cms_width = width, cms_depth = depth,
      cms_count = replicate (unat depth) (replicate (unat width) 0),
      cms_hashA = map (\<lambda>i. word_of_nat i * 2 + 1) [0..<unat depth],
      cms_hashB = map (\<lambda>i. word_of_nat i * 3 + 7) [0..<unat depth],
      cms_total = 0\<rparr>"

definition cms_hash :: "8 word list \<Rightarrow> 64 word" where
  "cms_hash data = fnv64a data"

definition getBucket :: "CountMinSketch \<Rightarrow> 64 word \<Rightarrow> nat \<Rightarrow> error + 32 word" where
  "getBucket cms hash row =
     (if row < length (cms_hashA cms) \<and> row < length (cms_hashB cms)
      then
        let a = (ucast (cms_hashA cms ! row) :: 64 word);
            b = (ucast (cms_hashB cms ! row) :: 64 word)
        in if cms_width cms = 0 then Inl DivideByZero
           else Inr (ucast ((a * hash + b) mod ucast (cms_width cms)))
      else Inl IndexOutOfRange)"

text \<open>The loop of \<open>Update\<close> over the rows: \<open>cms.count[i][bucket] += count\<close>.\<close>

fun update_rows :: "CountMinSketch \<Rightarrow> 64 word \<Rightarrow> 32 word \<Rightarrow> nat list \<Rightarrow> error + CountMinSketch" where
  "update_rows cms hash c [] = Inr cms"
| "update_rows cms hash c (i # rows) =
     (case getBucket cms hash i of
        Inl e \<Rightarrow> Inl e
      | Inr bucket \<Rightarrow>
          if i < length (cms_count cms) \<and> unat bucket < length (cms_count cms ! i)
          then update_rows
                 (cms\<lparr>cms_count := (cms_count cms)
                        [i := (cms_count cms ! i)
                                [unat bucket := cms_count cms ! i ! unat bucket + c]]\<rparr>)
                 hash c rows
          else Inl IndexOutOfRange)"

definition CMS_Update :: "CountMinSketch \<Rightarrow> 8 word list \<Rightarrow> 32 word \<Rightarrow> error + CountMinSketch" where
  "CMS_Update cms item c =
     (case update_rows cms (cms_hash item) c [0..<unat (cms_depth cms)] of
        Inl e \<Rightarrow> Inl e
      | Inr cms' \<Rightarrow> Inr (cms'\<lparr>cms_total := cms_total cms' + ucast c\<rparr>))"

text \<open>The loop of \<open>Estimate\<close>, which starts from \<open>math.MaxUint32\<close>.\<close>

fun min_rows :: "CountMinSketch \<Rightarrow> 64 word \<Rightarrow> 32 word \<Rightarrow> nat list \<Rightarrow> error + 32 word" where
  "min_rows cms hash minCount [] = Inr minCount"
| "min_rows cms hash minCount (i # rows) =
     (case getBucket cms hash i of
        Inl e \<Rightarrow> Inl e
      | Inr bucket \<Rightarrow>
          if i < length (cms_count cms) \<and> unat bucket < length (cms_count cms ! i)
          then min_rows cms hash
                 (if cms_count cms ! i ! unat bucket < minCount
                  then cms_count cms ! i ! unat bucket else minCount)
                 rows
          else Inl IndexOutOfRange)"

definition CMS_Estimate :: "CountMinSketch \<Rightarrow> 8 word list \<Rightarrow> error + 32 word" where
  "CMS_Estimate cms item =
     min_rows cms (cms_hash item) 0xFFFFFFFF [0..<unat (cms_depth cms)]"

text \<open>A sequence of \<open>Update\<close> calls, each with its item and its delta.\<close>

fun CMS_Updates :: "CountMinSketch \<Rightarrow> (8 word list \<times> 32 word) list \<Rightarrow> error + CountMinSketch" where
  "CMS_Updates cms [] = Inr cms"
| "CMS_Updates cms ((item, c) # rest) =
     (case CMS_Update cms item c of Inl e \<Rightarrow> Inl e | Inr cms' \<Rightarrow> CMS_Updates cms' rest)"

text \<open>
  The quantities of the specification: the true count of a key in a sequence of
  updates is the sum of the deltas applied for it, the total count the sum of all deltas.
\<close>

definition true_count :: "(8 word list \<times> 32 word) list \<Rightarrow> 8 word list \<Rightarrow> nat" where
  "true_count ops k = sum_list (map (\<lambda>(item, c). if item = k then unat c else 0) ops)"

definition total_count :: "(8 word list \<times> 32 word) list \<Rightarrow> nat" where
  "total_count ops = sum_list (map (\<lambda>(item, c). unat c) ops)"

text \<open>
  The cell of a row that a hash selects, as a number, and the load of a cell: the sum
  of the deltas of the updates that the row sends to the cell.
\<close>

definition rowBucket :: "CountMinSketch \<Rightarrow> 64 word \<Rightarrow> nat \<Rightarrow> nat" where
  "rowBucket cms hash row = (case getBucket cms hash row of Inr b \<Rightarrow> unat b | Inl e \<Rightarrow> 0)"

definition cell_load :: "CountMinSketch \<Rightarrow> (8 word list \<times> 32 word) list \<Rightarrow> nat \<Rightarrow> nat \<Rightarrow> nat" where
  "cell_load cms ops i j =
     sum_list (map (\<lambda>(item, c). if rowBucket cms (cms_hash item) i = j then unat c else 0) ops)"

text \<open>
  The shape that \<open>NewCountMinSketch\<close> gives a sketch and every \<open>Update\<close> keeps, and the
  invariant that ties the cells to the updates applied so far: every cell holds the
  load of the cell modulo \<open>2 ^ 32\<close>.
\<close>

definition cms_shape :: "CountMinSketch \<Rightarrow> bool" where
  "cms_shape cms \<longleftrightarrow>
     length (cms_count cms) = unat (cms_depth cms)
     \<and> (\<forall>i < unat (cms_depth cms). length (cms_count cms ! i) = unat (cms_width cms))
     \<and> length (cms_hashA cms) = unat (cms_depth cms)
     \<and> length (cms_hashB cms) = unat (cms_depth cms)"

definition cms_same_params :: "CountMinSketch \<Rightarrow> CountMinSketch \<Rightarrow> bool" where
  "cms_same_params cms cms' \<longleftrightarrow>
     cms_width cms' = cms_width cms \<and> cms_depth cms' = cms_depth cms
     \<and> cms_hashA cms' = cms_hashA cms \<and> cms_hashB cms' = cms_hashB cms"

definition cms_inv :: "CountMinSketch \<Rightarrow> (8 word list \<times> 32 word) list \<Rightarrow> bool" where
  "cms_inv cms ops \<longleftrightarrow>
     cms_shape cms
     \<and> (\<forall>i < unat (cms_depth cms). \<forall>j < unat (cms_width cms).
           unat (cms_count cms ! i ! j) = cell_load cms ops i j mod 2 ^ 32)"

text \<open>
  The quantities of the specification for the cardinality sketch: the number of zero
  bits of a 64-bit word before its first one bit, from the most significant bit down,
  and the 1-based position of that leading one bit.
\<close>

definition leading_zeros :: "64 word \<Rightarrow> nat" where
  "leading_zeros w = length (takeWhile (\<lambda>i. \<not> bit w i) (rev [0..<64]))"

definition leading_one_position :: "64 word \<Rightarrow> nat" where
  "leading_one_position w = Suc (leading_zeros w)"

subsection \<open>Adaptive sampler\<close>

record SamplingConfig =
  BaseRate :: real
  AnomalyRate :: real
  WindowSize :: int
  ReservoirSize :: int
  StratumWeights :: "string \<rightharpoonup> real"

record WindowStats =
  wst_values :: "real list"
  wst_timestamps :: "int list"
  wst_windowSize :: int
  wst_sum :: real
  wst_sumSquares :: real

definition NewWindowStats :: "int \<Rightarrow> WindowStats" where
  "NewWindowStats windowSize =
     \<lparr>wst_values = [], wst_timestamps = [], wst_windowSize = windowSize,
      wst_sum = 0, wst_sumSquares = 0\<rparr>"

text \<open>
  \<open>cleanup\<close>: \<open>keepFrom\<close> is the index of the first timestamp after the cutoff, and 0
  when there is none. The two vectors always have the same length.
\<close>

definition cleanup :: "WindowStats \<Rightarrow> int \<Rightarrow> WindowStats" where
  "cleanup ws currentTime =
     (let cutoff = currentTime - wst_windowSize ws;
          keepFrom = (if list_ex (\<lambda>ts. ts > cutoff) (wst_timestamps ws)
                      then length (takeWhile (\<lambda>ts. \<not> ts > cutoff) (wst_timestamps ws))
                      else 0)
      in if keepFrom > 0
         then ws\<lparr>wst_sum := foldl (\<lambda>s v. s - v) (wst_sum ws) (take keepFrom (wst_values ws)),
                 wst_sumSquares :=
                   foldl (\<lambda>s v. s - v * v) (wst_sumSquares ws) (take keepFrom (wst_values ws)),
                 wst_values := drop keepFrom (wst_values ws),
                 wst_timestamps := drop keepFrom (wst_timestamps ws)\<rparr>
         else ws)"

definition WS_Add :: "WindowStats \<Rightarrow> real \<Rightarrow> int \<Rightarrow> WindowStats" where
  "WS_Add ws v timestamp =
     cleanup (ws\<lparr>wst_values := wst_values ws @ [v],
                 wst_timestamps := wst_timestamps ws @ [timestamp],
                 wst_sum := wst_sum ws + v,
                 wst_sumSquares := wst_sumSquares ws + v * v\<rparr>) timestamp"

definition GetVariance :: "WindowStats \<Rightarrow> real" where
  "GetVariance ws =
     (if length (wst_values ws) < 2 then 0
      else let n = real (length (wst_values ws)); mean = wst_sum ws / n
           in (wst_sumSquares ws / n) - (mean * mean))"

record AnomalyThreshold =
  thr_MetricName :: string
  UpperBound :: real
  LowerBound :: real
  ZScore :: real

record AnomalyDetector =
  thresholds :: "string \<rightharpoonup> AnomalyThreshold"

definition setDefaultThresholds :: "string \<rightharpoonup> AnomalyThreshold" where
  "setDefaultThresholds =
     [''cpu_usage'' \<mapsto> \<lparr>thr_MetricName = ''cpu_usage'', UpperBound = f64_0_9,
                          LowerBound = 0, ZScore = 3\<rparr>,
      ''memory_usage'' \<mapsto> \<lparr>thr_MetricName = ''memory_usage'', UpperBound = f64_0_85,
                             LowerBound = 0, ZScore = 3\<rparr>,
      ''disk_usage'' \<mapsto> \<lparr>thr_MetricName = ''disk_usage'', UpperBound = f64_0_9,
                           LowerBound = 0, ZScore = 2.5\<rparr>,
      ''network_latency'' \<mapsto> \<lparr>thr_MetricName = ''network_latency'', UpperBound = 1000,
                                LowerBound = 0, ZScore = 3\<rparr>]"

definition NewAnomalyDetector :: AnomalyDetector where
  "NewAnomalyDetector = \<lparr>thresholds = setDefaultThresholds\<rparr>"

definition AD_IsAnomaly :: "AnomalyDetector \<Rightarrow> MetricPoint \<Rightarrow> bool" where
  "AD_IsAnomaly ad metric =
     (if IsAnomaly metric then True
      else (case thresholds ad (MetricName metric) of
              Some threshold \<Rightarrow>
                Value metric > UpperBound threshold \<or> Value metric < LowerBound threshold
            | None \<Rightarrow> False))"

record AdaptiveSampler =
  as_config :: SamplingConfig
  as_reservoirs :: "string \<rightharpoonup> ReservoirSampler"
  as_statistics :: "string \<rightharpoonup> WindowStats"
  as_anomalyDetector :: AnomalyDetector
  as_totalProcessed :: "64 word"
  as_totalSampled :: "64 word"

definition NewAdaptiveSampler :: "SamplingConfig \<Rightarrow> AdaptiveSampler" where
  "NewAdaptiveSampler config =
     \<lparr>as_config = config, as_reservoirs = Map.empty, as_statistics = Map.empty,
      as_anomalyDetector = NewAnomalyDetector, as_totalProcessed = 0, as_totalSampled = 0\<rparr>"

definition getStratum :: "MetricPoint \<Rightarrow> string" where
  "getStratum metric = ClusterID metric @ ''/'' @ Namespace metric @ ''/'' @ MetricName metric"

definition calculateSamplingRate :: "AdaptiveSampler \<Rightarrow> MetricPoint \<Rightarrow> real" where
  "calculateSamplingRate as metric =
     (let baseRate = BaseRate (as_config as);
          baseRate = (if AD_IsAnomaly (as_anomalyDetector as) metric
                      then max baseRate (AnomalyRate (as_config as)) else baseRate);
          stratum = getStratum metric;
          baseRate = (case StratumWeights (as_config as) stratum of
                        Some weight \<Rightarrow> baseRate * weight
                      | None \<Rightarrow> baseRate);
          baseRate = (case as_statistics as stratum of
                        Some stats \<Rightarrow> baseRate * (1 + GetVariance stats / 100)
                      | None \<Rightarrow> baseRate);
          baseRate = (if (MetricName metric = ''cpu_usage'' \<or> MetricName metric = ''memory_usage'')
                         \<and> Value metric > f64_0_8
                      then baseRate * 2 else baseRate)
      in min (max baseRate f64_0_001) 1)"

text \<open>\<open>ShouldSample\<close> with the draw \<open>u\<close> of \<open>rng.Float64()\<close>, a number of \<open>[0, 1)\<close>.\<close>

definition ShouldSample :: "AdaptiveSampler \<Rightarrow> MetricPoint \<Rightarrow> real \<Rightarrow> AdaptiveSampler \<times> bool" where
  "ShouldSample as metric u =
     (let as = as\<lparr>as_totalProcessed := as_totalProcessed as + 1\<rparr>;
          samplingRate = calculateSamplingRate as metric;
          shouldSample = (u < samplingRate)
      in (if shouldSample then as\<lparr>as_totalSampled := as_totalSampled as + 1\<rparr> else as,
          shouldSample))"

definition updateStatistics :: "AdaptiveSampler \<Rightarrow> MetricPoint \<Rightarrow> AdaptiveSampler" where
  "updateStatistics as metric =
     (let stratum = getStratum metric;
          stats = (case as_statistics as stratum of
                     Some stats \<Rightarrow> stats
                   | None \<Rightarrow> NewWindowStats (WindowSize (as_config as)))
      in as\<lparr>as_statistics :=
               (as_statistics as)(stratum \<mapsto> WS_Add stats (Value metric) (Timestamp metric))\<rparr>)"

definition getOrCreateReservoir ::
  "AdaptiveSampler \<Rightarrow> string \<Rightarrow> error + (AdaptiveSampler \<times> ReservoirSampler)" where
  "getOrCreateReservoir as stratum =
     (case as_reservoirs as stratum of
        Some reservoir \<Rightarrow> Inr (as, reservoir)
      | None \<Rightarrow>
          (case NewReservoirSampler (ReservoirSize (as_config as)) of
             Inl e \<Rightarrow> Inl e
           | Inr reservoir \<Rightarrow>
               Inr (as\<lparr>as_reservoirs := (as_reservoirs as)(stratum \<mapsto> reservoir)\<rparr>, reservoir)))"

text \<open>
  \<open>Sample\<close> with the draw \<open>u\<close> of the sampler and the raw draw \<open>r\<close> of the reservoir.
  The result is the new sampler, the returned pointer and the returned flag.
\<close>

definition Sample ::
  "AdaptiveSampler \<Rightarrow> MetricPoint \<Rightarrow> real \<Rightarrow> nat
     \<Rightarrow> error + (AdaptiveSampler \<times> MetricPoint option \<times> bool)" where
  "Sample as metric u r =
     (case ShouldSample as metric u of
        (as, False) \<Rightarrow> Inr (as, None, False)
      | (as, True) \<Rightarrow>
          (let as = updateStatistics as metric;
               stratum = getStratum metric
           in case getOrCreateReservoir as stratum of
                Inl e \<Rightarrow> Inl e
              | Inr (as, reservoir) \<Rightarrow>
                  (case RS_Add reservoir metric r of
                     Inl e \<Rightarrow> Inl e
                   | Inr (reservoir, sampled) \<Rightarrow>
                       Inr (as\<lparr>as_reservoirs := (as_reservoirs as)(stratum \<mapsto> reservoir)\<rparr>,
                            sampled, sampled \<noteq> None))))"

definition GetEffectiveSamplingRate :: "AdaptiveSampler \<Rightarrow> real" where
  "GetEffectiveSamplingRate as =
     (if as_totalProcessed as = 0 then BaseRate (as_config as)
      else real (unat (as_totalSampled as)) / real (unat (as_totalProcessed as)))"

text \<open>The pointer that \<open>Sample\<close> returns.\<close>

definition Sample_pointer ::
  "AdaptiveSampler \<Rightarrow> MetricPoint \<Rightarrow> real \<Rightarrow> nat \<Rightarrow> error + MetricPoint option" where
  "Sample_pointer as metric u r =
     (case Sample as metric u r of
        Inl e \<Rightarrow> Inl e
      | Inr (as', sampled, shouldSample) \<Rightarrow> Inr sampled)"

subsection \<open>Query engine\<close>

record QueryEngineStats =
  TotalQueries :: "64 word"
  ApproxQueries :: "64 word"
  AvgLatency :: int
  TotalSamples :: "64 word"
  ErrorRate :: real
  LastUpdateTime :: int

record QueryEngineConfig =
  HLLPrecision :: "8 word"
  CMSWidth :: "32 word"
  CMSDepth :: "32 word"
  BloomSize :: "32 word"
  BloomHashes :: "32 word"
  cfg_SamplingConfig :: SamplingConfig

text \<open>
  The map \<open>samples\<close> of the engine is an association list, since the queries range
  over it; Go leaves the order of that iteration open, the model takes the order of
  the list.
\<close>

record QueryEngine =
  qe_hll :: HyperLogLog
  qe_cms :: CountMinSketch
  qe_bloom :: BloomFilter
  qe_sampler :: AdaptiveSampler
  qe_samples :: "(string \<times> MetricPoint list) list"
  qe_stats :: QueryEngineStats

definition NewQueryEngine :: "QueryEngineConfig \<Rightarrow> int \<Rightarrow> QueryEngine" where
  "NewQueryEngine config now =
     \<lparr>qe_hll = NewHyperLogLog (HLLPrecision config),
      qe_cms = NewCountMinSketch (CMSWidth config) (CMSDepth config),
      qe_bloom = NewBloomFilter (BloomSize config) (BloomHashes config),
      qe_sampler = NewAdaptiveSampler (cfg_SamplingConfig config),
      qe_samples = [],
      qe_stats = \<lparr>TotalQueries = 0, ApproxQueries = 0, AvgLatency = 0, TotalSamples = 0,
                  ErrorRate = 0, LastUpdateTime = now\<rparr>\<rparr>"

definition getMetricKey :: "MetricPoint \<Rightarrow> string" where
  "getMetricKey metric =
     ClusterID metric @ ''/'' @ Namespace metric @ ''/'' @ PodName metric @ ''/'' @ MetricName metric"

definition updateDataStructures :: "QueryEngine \<Rightarrow> MetricPoint \<Rightarrow> error + QueryEngine" where
  "updateDataStructures qe metric =
     (let key = getMetricKey metric
      in case HLL_Add (qe_hll qe) (bytes_of key) of
           Inl e \<Rightarrow> Inl e
         | Inr hll \<Rightarrow>
             (case CMS_Update (qe_cms qe) (bytes_of key) 1 of
                Inl e \<Rightarrow> Inl e
              | Inr cms \<Rightarrow>
                  (case BF_Add (qe_bloom qe) (bytes_of key) of
                     Inl e \<Rightarrow> Inl e
                   | Inr bloom \<Rightarrow> Inr (qe\<lparr>qe_hll := hll, qe_cms := cms, qe_bloom := bloom\<rparr>))))"

definition samples_of :: "QueryEngine \<Rightarrow> string \<Rightarrow> MetricPoint list" where
  "samples_of qe key = (case map_of (qe_samples qe) key of Some l \<Rightarrow> l | None \<Rightarrow> [])"

definition count_sample :: "QueryEngine \<Rightarrow> QueryEngine" where
  "count_sample qe =
     qe\<lparr>qe_stats := (qe_stats qe)\<lparr>TotalSamples := TotalSamples (qe_stats qe) + 1\<rparr>\<rparr>"

text \<open>
  \<open>ProcessMetric\<close> with the two draws that \<open>Sample\<close> takes; \<open>count_sample\<close> is the
  final \<open>qe.stats.TotalSamples++\<close>.
\<close>

definition ProcessMetric :: "QueryEngine \<Rightarrow> MetricPoint \<Rightarrow> real \<Rightarrow> nat \<Rightarrow> error + QueryEngine" where
  "ProcessMetric qe metric u r =
     (case Sample (qe_sampler qe) metric u r of
        Inl e \<Rightarrow> Inl e
      | Inr (sampler, sampled, shouldSample) \<Rightarrow>
          (let qe = qe\<lparr>qe_sampler := sampler\<rparr>
           in case sampled of
                Some s \<Rightarrow>
                  if shouldSample
                  then (case updateDataStructures qe s of
                          Inl e \<Rightarrow> Inl e
                        | Inr qe \<Rightarrow>
                            (let key = getMetricKey s;
                                 l = samples_of qe key @ [s];
                                 l = (if length l > 1000 then drop (length l - 1000) l else l)
                             in Inr (count_sample
                                       (qe\<lparr>qe_samples := AList.update key l (qe_samples qe)\<rparr>))))
                  else Inr (count_sample qe)
              | None \<Rightarrow> Inr (count_sample qe)))"

fun ProcessMetrics :: "QueryEngine \<Rightarrow> (MetricPoint \<times> real \<times> nat) list \<Rightarrow> error + QueryEngine" where
  "ProcessMetrics qe [] = Inr qe"
| "ProcessMetrics qe ((metric, u, r) # rest) =
     (case ProcessMetric qe metric u r of Inl e \<Rightarrow> Inl e | Inr qe' \<Rightarrow> ProcessMetrics qe' rest)"

subsection \<open>Percentile queries\<close>

record TimeRange =
  tr_Start :: int
  tr_End :: int

record QueryRequest =
  req_ID :: string
  req_Query :: string
  req_QueryType :: string
  req_TimeRange :: TimeRange
  req_Filters :: "string \<rightharpoonup> string"
  req_ErrorBound :: real
  req_Confidence :: real

record PercentileResult =
  pr_Percentile :: real
  pr_Value :: real
  pr_SampleSize :: int

text \<open>The values of the field \<open>Result\<close> that \<open>executePercentile\<close> produces.\<close>

datatype result_payload = NilResult | PercentilePayload PercentileResult

record QueryResult =
  res_ID :: string
  res_Query :: string
  res_Result :: result_payload
  res_Error :: "real option"
  res_Confidence :: "real option"
  res_SampleSize :: int
  res_ProcessingTime :: int
  res_IsApproximate :: bool
  res_Timestamp :: int

text \<open>
  The result of \<open>strconv.ParseFloat\<close> keeps the special values of \<open>float64\<close>. The
  parser itself belongs to Go's library and is a parameter \<open>parseFloat\<close> of the model:
  \<open>None\<close> stands for a result with \<open>err != nil\<close>.
\<close>

datatype float64 = Finite real | PosInf | NegInf | NaN

fun f64_less :: "float64 \<Rightarrow> real \<Rightarrow> bool" where
  "f64_less (Finite x) c = (x < c)"
| "f64_less NegInf c = True"
| "f64_less PosInf c = False"
| "f64_less NaN c = False"

fun f64_greater :: "float64 \<Rightarrow> real \<Rightarrow> bool" where
  "f64_greater (Finite x) c = (x > c)"
| "f64_greater PosInf c = True"
| "f64_greater NegInf c = False"
| "f64_greater NaN c = False"

fun strings_HasPrefix :: "string \<Rightarrow> string \<Rightarrow> bool" where
  "strings_HasPrefix s [] = True"
| "strings_HasPrefix [] (c # cs) = False"
| "strings_HasPrefix (d # ds) (c # cs) = (d = c \<and> strings_HasPrefix ds cs)"

fun strings_Index :: "string \<Rightarrow> string \<Rightarrow> int" where
  "strings_Index [] sub = (if sub = [] then 0 else -1)"
| "strings_Index (d # ds) sub =
     (if strings_HasPrefix (d # ds) sub then 0
      else (let i = strings_Index ds sub in if i < 0 then -1 else i + 1))"

definition strings_Contains :: "string \<Rightarrow> string \<Rightarrow> bool" where
  "strings_Contains s sub = (strings_Index s sub \<ge> 0)"

definition extractPercentileValue :: "(string \<Rightarrow> float64 option) \<Rightarrow> string \<Rightarrow> float64" where
  "extractPercentileValue parseFloat query =
     (if strings_Contains query ''PERCENTILE''
      then
        (let start = strings_Index query ''('' + 1;
             end' = strings_Index query '')''
         in if start > 0 \<and> end' > start
            then (case parseFloat (take (nat (end' - start)) (drop (nat start) query)) of
                    Some val \<Rightarrow> val
                  | None \<Rightarrow> Finite 95)
            else Finite 95)
      else Finite 95)"

text \<open>
  \<open>matchesFilters\<close>. The loop over the filters rejects a sample as soon as one of the
  four known keys has another value, and skips every other key.
\<close>

definition filter_ok :: "(string \<rightharpoonup> string) \<Rightarrow> string \<Rightarrow> string \<Rightarrow> bool" where
  "filter_ok filters key field =
     (case filters key of Some v \<Rightarrow> field = v | None \<Rightarrow> True)"

definition matchesFilters :: "MetricPoint \<Rightarrow> QueryRequest \<Rightarrow> bool" where
  "matchesFilters metric request =
     (if tr_Start (req_TimeRange request) \<noteq> 0
         \<and> Timestamp metric < tr_Start (req_TimeRange request) then False
      else if tr_End (req_TimeRange request) \<noteq> 0
         \<and> Timestamp metric > tr_End (req_TimeRange request) then False
      else filter_ok (req_Filters request) ''cluster_id'' (ClusterID metric)
         \<and> filter_ok (req_Filters request) ''namespace'' (Namespace metric)
         \<and> filter_ok (req_Filters request) ''metric_name'' (MetricName metric)
         \<and> filter_ok (req_Filters request) ''pod_name'' (PodName metric))"

definition getFilteredSamples :: "QueryEngine \<Rightarrow> QueryRequest \<Rightarrow> MetricPoint list" where
  "getFilteredSamples qe request =
     filter (\<lambda>sample. matchesFilters sample request) (concat (map snd (qe_samples qe)))"

text \<open>
  \<open>executePercentile\<close>. The fields \<open>ProcessingTime\<close> and \<open>Timestamp\<close> of its result
  are the zero values; \<open>ExecuteQuery\<close>, which \<open>processQuery\<close> reaches it from for the
  query type \<open>percentile\<close>, sets them on a result and passes an error on unchanged.
  A NaN passes the test of the range, and the index computed from it is converted to
  \<open>int\<close> with a result that Go leaves to the implementation.
\<close>

definition executePercentile ::
  "(string \<Rightarrow> float64 option) \<Rightarrow> QueryEngine \<Rightarrow> QueryRequest \<Rightarrow> error + QueryResult" where
  "executePercentile parseFloat qe request =
     (let samples = getFilteredSamples qe request
      in if length samples = 0
         then Inr \<lparr>res_ID = req_ID request, res_Query = req_Query request,
                   res_Result = NilResult, res_Error = None, res_Confidence = None,
                   res_SampleSize = 0, res_ProcessingTime = 0, res_IsApproximate = False,
                   res_Timestamp = 0\<rparr>
         else
           let percentileValue = extractPercentileValue parseFloat (req_Query request)
           in if f64_less percentileValue 0 \<or> f64_greater percentileValue 100
              then Inl ErrInvalidPercentile
              else (case percentileValue of
                      Finite p \<Rightarrow>
                        (let values = sort (map Value samples);
                             index = (p / 100) * real (length values - 1);
                             lowerIndex = \<lfloor>index\<rfloor>;
                             upperIndex = \<lceil>index\<rceil>;
                             percentileResult =
                               (if lowerIndex = upperIndex then values ! nat lowerIndex
                                else (let weight = index - real_of_int lowerIndex
                                      in values ! nat lowerIndex * (1 - weight)
                                         + values ! nat upperIndex * weight))
                         in Inr \<lparr>res_ID = req_ID request, res_Query = req_Query request,
                                  res_Result = PercentilePayload
                                    \<lparr>pr_Percentile = p, pr_Value = percentileResult,
                                     pr_SampleSize = int (length samples)\<rparr>,
                                  res_Error = None, res_Confidence = None,
                                  res_SampleSize = int (length samples),
                                  res_ProcessingTime = 0, res_IsApproximate = True,
                                  res_Timestamp = 0\<rparr>)
                    | _ \<Rightarrow> Inl ImplementationDependent))"

subsection \<open>Example inputs\<close>

definition example_sampling :: SamplingConfig where
  "example_sampling =
     \<lparr>BaseRate = 1, AnomalyRate = 1, WindowSize = 60, ReservoirSize = 1,
      StratumWeights = Map.empty\<rparr>"

definition example_engine :: QueryEngine where
  "example_engine =
     NewQueryEngine \<lparr>HLLPrecision = 4, CMSWidth = 2, CMSDepth = 1, BloomSize = 8,
                     BloomHashes = 1, cfg_SamplingConfig = example_sampling\<rparr> 0"

definition example_samples :: QueryEngine where
  "example_samples = example_engine\<lparr>qe_samples := [(''c/n/a/m'', [example_metric ''a''])]\<rparr>"

definition example_request :: "string \<Rightarrow> (string \<rightharpoonup> string) \<Rightarrow> QueryRequest" where
  "example_request query filters =
     \<lparr>req_ID = ''q'', req_Query = query, req_QueryType = ''percentile'',
      req_TimeRange = \<lparr>tr_Start = 0, tr_End = 0\<rparr>, req_Filters = filters,
      req_ErrorBound = 0, req_Confidence = 0\<rparr>"

definition example_parseFloat :: "string \<Rightarrow> float64 option" where
  "example_parseFloat s =
     (if s = ''150'' then Some (Finite 150) else if s = ''NaN'' then Some NaN else None)"

text \<open>
  The sketches of an engine are ready when they have the shape their constructors
  give them and the width of the frequency sketch and the size of the membership
  sketch are not zero.
\<close>

definition sketches_ready :: "QueryEngine \<Rightarrow> bool" where
  "sketches_ready qe \<longleftrightarrow>
     4 \<le> hll_precision (qe_hll qe) \<and> hll_precision (qe_hll qe) \<le> 16
     \<and> length (hll_buckets (qe_hll qe)) = 2 ^ unat (hll_precision (qe_hll qe))
     \<and> cms_shape (qe_cms qe) \<and> cms_width (qe_cms qe) \<noteq> 0
     \<and> length (bf_bits (qe_bloom qe)) = unat (bf_size (qe_bloom qe))
     \<and> bf_size (qe_bloom qe) \<noteq> 0"

text \<open>
  The example engine after the ingest of \<open>example_metric ''a''\<close> with the draws 0
  and 0, and its sampler.
\<close>

definition example_sampler_1 :: AdaptiveSampler where
  "example_sampler_1 =
     \<lparr>as_config = example_sampling,
      as_reservoirs =
        [''c/n/m'' \<mapsto> \<lparr>rs_capacity = 1, rs_samples = [example_metric ''a''], rs_count = 1\<rparr>],
      as_statistics =
        [''c/n/m'' \<mapsto> \<lparr>wst_values = [1 / 2], wst_timestamps = [1000], wst_windowSize = 60,
                          wst_sum = 1 / 2, wst_sumSquares = 1 / 4\<rparr>],
      as_anomalyDetector = NewAnomalyDetector, as_totalProcessed = 1, as_totalSampled = 1\<rparr>"

definition example_engine_1 :: QueryEngine where
  "example_engine_1 =
     \<lparr>qe_hll = (NewHyperLogLog 4)
                 \<lparr>hll_buckets := [0, 0, 0, 0, 0, 0, 0, 0, 0, 3, 0, 0, 0, 0, 0, 0]\<rparr>,
      qe_cms = \<lparr>cms_width = 2, cms_depth = 1, cms_count = [[1, 0]], cms_hashA = [1],
                cms_hashB = [7], cms_total = 1\<rparr>,
      qe_bloom = \<lparr>bf_bits = [False, False, False, False, False, False, False, True],
                  bf_size = 8, bf_numHashes = 1, bf_numItems = 1\<rparr>,
      qe_sampler = example_sampler_1,
      qe_samples = [(''c/n/a/m'', [example_metric ''a''])],
      qe_stats = \<lparr>TotalQueries = 0, ApproxQueries = 0, AvgLatency = 0, TotalSamples = 1,
                  ErrorRate = 0, LastUpdateTime = 0\<rparr>\<rparr>"

section \<open>Properties\<close>

lemma precision_cases:
  fixes p :: "8 word"
  assumes "4 \<le> p" "p \<le> 16"
  shows "4 \<le> unat p \<and> unat p \<le> 16"
  using assms by (simp add: word_le_nat_alt)

lemma unat_push_bit_one_32:
  assumes "n < 32"
  shows "unat (push_bit n (1 :: 32 word)) = 2 ^ n"
  using assms by transfer (simp add: take_bit_nat_eq_self nat_power_eq)

text \<open>
  C9. The constructor of the cardinality sketch never fails. For a precision \<open>p\<close>
  outside \<open>[4, 16]\<close> it builds a sketch of precision 14 with \<open>2 ^ 14\<close> registers,
  and for \<open>p\<close> in \<open>[4, 16]\<close> a sketch of precision \<open>p\<close> with exactly \<open>2 ^ p\<close>
  registers, all zero.
\<close>

theorem NewHyperLogLog_registers:
  fixes p :: "8 word"
  shows "(p < 4 \<or> p > 16 \<longrightarrow>
            hll_precision (NewHyperLogLog p) = 14 \<and>
            length (hll_buckets (NewHyperLogLog p)) = 2 ^ 14 \<and>
            unat (hll_m (NewHyperLogLog p)) = 2 ^ 14)
       \<and> (4 \<le> p \<and> p \<le> 16 \<longrightarrow>
            hll_precision (NewHyperLogLog p) = p \<and>
            length (hll_buckets (NewHyperLogLog p)) = 2 ^ unat p \<and>
            unat (hll_m (NewHyperLogLog p)) = 2 ^ unat p)
       \<and> set (hll_buckets (NewHyperLogLog p)) \<subseteq> {0}"
proof -
  have out: "hll_precision (NewHyperLogLog p) = 14 \<and>
             length (hll_buckets (NewHyperLogLog p)) = 2 ^ 14 \<and>
             unat (hll_m (NewHyperLogLog p)) = 2 ^ 14" if "p < 4 \<or> p > 16"
    using that by (simp add: NewHyperLogLog_def Let_def)
  have inr: "hll_precision (NewHyperLogLog p) = p \<and>
             length (hll_buckets (NewHyperLogLog p)) = 2 ^ unat p \<and>
             unat (hll_m (NewHyperLogLog p)) = 2 ^ unat p" if "4 \<le> p \<and> p \<le> 16"
  proof -
    from that have "4 \<le> unat p \<and> unat p \<le> 16" by (simp add: precision_cases)
    then have lt: "unat p < 32" by simp
    from that have sel: "\<not> (p < 4 \<or> p > 16)" by (simp add: not_less)
    show ?thesis
      using sel unat_push_bit_one_32 [OF lt] by (simp add: NewHyperLogLog_def Let_def)
  qed
  have zero: "set (hll_buckets (NewHyperLogLog p)) \<subseteq> {0}"
    by (auto simp add: NewHyperLogLog_def Let_def)
  from out inr zero show ?thesis by blast
qed

theorem NewHyperLogLog_registers_witness:
  "((3 :: 8 word) < 4 \<or> (3 :: 8 word) > 16)
   \<and> hll_precision (NewHyperLogLog 3) = 14
   \<and> length (hll_buckets (NewHyperLogLog 3)) = 2 ^ 14
   \<and> (4 \<le> (10 :: 8 word) \<and> (10 :: 8 word) \<le> 16)
   \<and> hll_precision (NewHyperLogLog 10) = 10
   \<and> length (hll_buckets (NewHyperLogLog 10)) = 2 ^ unat (10 :: 8 word)"
  using NewHyperLogLog_registers [of 3] NewHyperLogLog_registers [of 10]
  by simp

subsection \<open>Reservoirs\<close>

lemma RS_Add_size:
  assumes "RS_Add rs metric r = Inr (rs', sampled)"
    and "RS_Size rs \<le> rs_capacity rs"
  shows "RS_Size rs' \<le> rs_capacity rs' \<and> rs_capacity rs' = rs_capacity rs"
  using assms
  by (auto simp add: RS_Add_def RS_Size_def Let_def split: if_splits sum.splits)

lemma RS_Adds_size:
  assumes "RS_Adds rs ops = Inr rs'"
    and "RS_Size rs \<le> rs_capacity rs"
  shows "RS_Size rs' \<le> rs_capacity rs' \<and> rs_capacity rs' = rs_capacity rs"
  using assms
proof (induction ops arbitrary: rs)
  case Nil
  then show ?case by simp
next
  case (Cons op ops)
  obtain metric r where op: "op = (metric, r)" by (cases op)
  from Cons.prems(1) op obtain rs1 sampled
    where step: "RS_Add rs metric r = Inr (rs1, sampled)" and rest: "RS_Adds rs1 ops = Inr rs'"
    by (auto split: sum.splits)
  from RS_Add_size [OF step Cons.prems(2)]
  have inv: "RS_Size rs1 \<le> rs_capacity rs1" and cap: "rs_capacity rs1 = rs_capacity rs"
    by simp_all
  from Cons.IH [OF rest inv] cap show ?case by simp
qed

text \<open>
  C5. A plain reservoir sampler constructed with capacity \<open>K\<close> holds at most \<open>K\<close>
  samples after every sequence of \<open>Add\<close> operations, whatever the draws of its
  random source are.
\<close>

theorem ReservoirSampler_size_le_capacity:
  assumes "NewReservoirSampler K = Inr rs0"
    and "RS_Adds rs0 ops = Inr rs"
  shows "RS_Size rs \<le> K \<and> rs_capacity rs = K"
proof -
  from assms(1) have "rs_capacity rs0 = K" and "RS_Size rs0 \<le> rs_capacity rs0"
    by (auto simp add: NewReservoirSampler_def RS_Size_def split: if_splits)
  with RS_Adds_size [OF assms(2)] show ?thesis by simp
qed

theorem ReservoirSampler_size_le_capacity_witness:
  "NewReservoirSampler 1 = Inr \<lparr>rs_capacity = 1, rs_samples = [], rs_count = 0\<rparr>
   \<and> RS_Adds \<lparr>rs_capacity = 1, rs_samples = [], rs_count = 0\<rparr>
        [(example_metric ''a'', 0), (example_metric ''b'', 2), (example_metric ''d'', 1)]
      = Inr \<lparr>rs_capacity = 1, rs_samples = [example_metric ''b''], rs_count = 3\<rparr>
   \<and> RS_Size \<lparr>rs_capacity = 1, rs_samples = [example_metric ''b''], rs_count = 3\<rparr> \<le> 1"
proof -
  have new: "NewReservoirSampler 1 = Inr \<lparr>rs_capacity = 1, rs_samples = [], rs_count = 0\<rparr>"
    by (simp add: NewReservoirSampler_def)
  have run: "RS_Adds \<lparr>rs_capacity = 1, rs_samples = [], rs_count = 0\<rparr>
        [(example_metric ''a'', 0), (example_metric ''b'', 2), (example_metric ''d'', 1)]
      = Inr \<lparr>rs_capacity = 1, rs_samples = [example_metric ''b''], rs_count = 3\<rparr>"
    by (simp add: RS_Add_def Intn_def Let_def)
  from ReservoirSampler_size_le_capacity [OF new run] new run show ?thesis by simp
qed

text \<open>
  C8 as the code has it. A call of \<open>AddWeighted\<close> with a negative (or zero) weight
  returns normally, without an error, and leaves the reservoir as it was.
\<close>

theorem AddWeighted_nonpositive_ignored:
  assumes "weight \<le> 0"
  shows "AddWeighted wrs metric weight u = Inr wrs"
  using assms by (simp add: AddWeighted_def)

theorem AddWeighted_nonpositive_ignored_witness:
  "(-1 :: real) \<le> 0
   \<and> AddWeighted \<lparr>wrs_capacity = 2, wrs_samples = []\<rparr> (example_metric ''a'') (-1) (1 / 2)
     = Inr \<lparr>wrs_capacity = 2, wrs_samples = []\<rparr>"
  using AddWeighted_nonpositive_ignored
          [of "-1" "\<lparr>wrs_capacity = 2, wrs_samples = []\<rparr>" "example_metric ''a''" "1 / 2"]
  by simp

text \<open>
  The claim C8 as stated fails: for the weight \<open>-1\<close> the call is not an error, while
  the same record with the weight \<open>1\<close> is stored.
\<close>

theorem AddWeighted_negative_counterexample:
  "\<not> isl (AddWeighted \<lparr>wrs_capacity = 2, wrs_samples = []\<rparr> (example_metric ''a'') (-1) (1 / 2))
   \<and> AddWeighted \<lparr>wrs_capacity = 2, wrs_samples = []\<rparr> (example_metric ''a'') (-1) (1 / 2)
     = Inr \<lparr>wrs_capacity = 2, wrs_samples = []\<rparr>"
  by (simp add: AddWeighted_def)

subsection \<open>Bloom filter\<close>

lemma unat_mod_less_size:
  fixes h sz :: "32 word"
  assumes "sz \<noteq> 0"
  shows "unat (h mod sz) < unat sz"
proof -
  from assms have "0 < unat sz" by (simp add: unat_gt_0)
  then show ?thesis by (simp add: unat_mod)
qed

lemma set_bits_result:
  assumes "set_bits bits sz hs = Inr bits'"
  shows "length bits' = length bits
       \<and> (\<forall>i < length bits. bits ! i \<longrightarrow> bits' ! i)
       \<and> (\<forall>h \<in> set hs. sz \<noteq> 0 \<and> unat (h mod sz) < length bits \<and> bits' ! unat (h mod sz))"
  using assms
proof (induction hs arbitrary: bits)
  case Nil
  then show ?case by simp
next
  case (Cons h hs)
  let ?i = "unat (h mod sz)"
  from Cons.prems have nz: "sz \<noteq> 0" and inr: "?i < length bits"
    and rest: "set_bits (bits[?i := True]) sz hs = Inr bits'"
    by (auto split: if_splits)
  from Cons.IH [OF rest]
  have len: "length bits' = length bits"
    and mono: "\<forall>i < length bits. (bits[?i := True]) ! i \<longrightarrow> bits' ! i"
    and tl: "\<forall>h \<in> set hs. sz \<noteq> 0 \<and> unat (h mod sz) < length bits \<and> bits' ! unat (h mod sz)"
    by simp_all
  from mono inr have here: "bits' ! ?i" by simp
  have keep: "\<forall>i < length bits. bits ! i \<longrightarrow> bits' ! i"
  proof (intro allI impI)
    fix i assume "i < length bits" "bits ! i"
    then have "(bits[?i := True]) ! i" by (cases "i = ?i") simp_all
    with mono \<open>i < length bits\<close> show "bits' ! i" by simp
  qed
  from len keep tl nz inr here show ?case by simp
qed

lemma set_bits_total:
  assumes "sz \<noteq> 0" and "length bits = unat sz"
  shows "\<exists>bits'. set_bits bits sz hs = Inr bits'"
  using assms
proof (induction hs arbitrary: bits)
  case Nil
  then show ?case by simp
next
  case (Cons h hs)
  from Cons.prems have "unat (h mod sz) < length bits"
    by (simp add: unat_mod_less_size)
  with Cons show ?case by simp
qed

lemma all_bits_set_True:
  assumes "\<forall>h \<in> set hs. sz \<noteq> 0 \<and> unat (h mod sz) < length bits \<and> bits ! unat (h mod sz)"
  shows "all_bits_set bits sz hs = Inr True"
  using assms by (induction hs) simp_all

lemma BF_Add_result:
  assumes "BF_Add bf item = Inr bf'"
  shows "bf_size bf' = bf_size bf \<and> bf_numHashes bf' = bf_numHashes bf
       \<and> length (bf_bits bf') = length (bf_bits bf)
       \<and> (\<forall>i < length (bf_bits bf). bf_bits bf ! i \<longrightarrow> bf_bits bf' ! i)"
  using assms set_bits_result [of "bf_bits bf" "bf_size bf" "getHashes bf item"]
  by (auto simp add: BF_Add_def split: sum.splits)

lemma BF_Adds_result:
  assumes "BF_Adds bf items = Inr bf'"
  shows "bf_size bf' = bf_size bf \<and> bf_numHashes bf' = bf_numHashes bf
       \<and> length (bf_bits bf') = length (bf_bits bf)
       \<and> (\<forall>i < length (bf_bits bf). bf_bits bf ! i \<longrightarrow> bf_bits bf' ! i)"
  using assms
proof (induction items arbitrary: bf)
  case Nil
  then show ?case by simp
next
  case (Cons item items)
  from Cons.prems obtain bf1 where one: "BF_Add bf item = Inr bf1"
    and rest: "BF_Adds bf1 items = Inr bf'"
    by (auto split: sum.splits)
  from BF_Add_result [OF one] Cons.IH [OF rest] show ?case by simp
qed

lemma BF_Adds_total:
  assumes "bf_size bf \<noteq> 0" and "length (bf_bits bf) = unat (bf_size bf)"
  shows "\<exists>bf'. BF_Adds bf items = Inr bf'"
  using assms
proof (induction items arbitrary: bf)
  case Nil
  then show ?case by simp
next
  case (Cons item items)
  from set_bits_total [OF Cons.prems, of "getHashes bf item"]
  obtain bf1 where one: "BF_Add bf item = Inr bf1"
    by (auto simp add: BF_Add_def)
  from BF_Add_result [OF one] Cons.prems
  have "bf_size bf1 \<noteq> 0" and "length (bf_bits bf1) = unat (bf_size bf1)" by simp_all
  from Cons.IH [OF this] one show ?case by simp
qed

lemma NewBloomFilter_shape:
  "length (bf_bits (NewBloomFilter sz numHashes)) = unat (bf_size (NewBloomFilter sz numHashes))"
  by (simp add: NewBloomFilter_def)

text \<open>
  C3. No false negatives. If \<open>Add\<close> of an item returns and any further sequence of
  \<open>Add\<close> operations returns, then \<open>Contains\<close> of the item returns \<open>true\<close> in the state
  reached. On a filter whose bit vector has its \<open>size\<close> cells, \<open>size\<close> not zero (every
  filter made by \<open>NewBloomFilter\<close> with a size that is not zero), these operations do
  return.
\<close>

theorem BloomFilter_no_false_negatives:
  shows "(BF_Add bf item = Inr bf1 \<and> BF_Adds bf1 items = Inr bf2
            \<longrightarrow> BF_Contains bf2 item = Inr True)
       \<and> (bf_size bf \<noteq> 0 \<and> length (bf_bits bf) = unat (bf_size bf)
            \<longrightarrow> (\<exists>bf1 bf2. BF_Add bf item = Inr bf1 \<and> BF_Adds bf1 items = Inr bf2
                            \<and> BF_Contains bf2 item = Inr True))"
proof -
  have sound: "BF_Contains bf2 item = Inr True"
    if one: "BF_Add bf item = Inr bf1" and more: "BF_Adds bf1 items = Inr bf2"
    for bf1 bf2
  proof -
    let ?hs = "getHashes bf item"
    from one obtain bits1 where sb: "set_bits (bf_bits bf) (bf_size bf) ?hs = Inr bits1"
      and bits1: "bf_bits bf1 = bits1"
      by (auto simp add: BF_Add_def split: sum.splits)
    from set_bits_result [OF sb] bits1
    have len1: "length (bf_bits bf1) = length (bf_bits bf)"
      and set1: "\<forall>h \<in> set ?hs. bf_size bf \<noteq> 0 \<and> unat (h mod bf_size bf) < length (bf_bits bf)
                    \<and> bf_bits bf1 ! unat (h mod bf_size bf)"
      by simp_all
    from BF_Add_result [OF one] BF_Adds_result [OF more]
    have size2: "bf_size bf2 = bf_size bf" and nh2: "bf_numHashes bf2 = bf_numHashes bf"
      and len2: "length (bf_bits bf2) = length (bf_bits bf)"
      and mono: "\<forall>i < length (bf_bits bf1). bf_bits bf1 ! i \<longrightarrow> bf_bits bf2 ! i"
      by simp_all
    have hs2: "getHashes bf2 item = ?hs" by (simp add: getHashes_def nh2)
    have "\<forall>h \<in> set ?hs. bf_size bf2 \<noteq> 0 \<and> unat (h mod bf_size bf2) < length (bf_bits bf2)
              \<and> bf_bits bf2 ! unat (h mod bf_size bf2)"
      using set1 mono len1 len2 size2 by simp
    from all_bits_set_True [OF this] show ?thesis by (simp add: BF_Contains_def hs2)
  qed
  have total: "\<exists>bf1 bf2. BF_Add bf item = Inr bf1 \<and> BF_Adds bf1 items = Inr bf2
                  \<and> BF_Contains bf2 item = Inr True"
    if wf: "bf_size bf \<noteq> 0 \<and> length (bf_bits bf) = unat (bf_size bf)"
  proof -
    from wf BF_Adds_total [of bf "item # items"]
    obtain bf1 bf2 where one: "BF_Add bf item = Inr bf1" and more: "BF_Adds bf1 items = Inr bf2"
      by (auto split: sum.splits)
    with sound [OF one more] show ?thesis by blast
  qed
  from sound total show ?thesis by blast
qed

theorem BloomFilter_no_false_negatives_witness:
  "BF_Add (NewBloomFilter 8 2) [] =
     Inr \<lparr>bf_bits = [False, False, True, False, False, True, False, False],
          bf_size = 8, bf_numHashes = 2, bf_numItems = 1\<rparr>
   \<and> BF_Adds \<lparr>bf_bits = [False, False, True, False, False, True, False, False],
          bf_size = 8, bf_numHashes = 2, bf_numItems = 1\<rparr> [[1]] =
     Inr \<lparr>bf_bits = [False, False, True, True, True, True, False, False],
          bf_size = 8, bf_numHashes = 2, bf_numItems = 2\<rparr>
   \<and> BF_Contains \<lparr>bf_bits = [False, False, True, True, True, True, False, False],
          bf_size = 8, bf_numHashes = 2, bf_numItems = 2\<rparr> [] = Inr True
   \<and> bf_size (NewBloomFilter 8 2) \<noteq> 0
   \<and> length (bf_bits (NewBloomFilter 8 2)) = unat (bf_size (NewBloomFilter 8 2))"
proof -
  have one: "BF_Add (NewBloomFilter 8 2) [] =
     Inr \<lparr>bf_bits = [False, False, True, False, False, True, False, False],
          bf_size = 8, bf_numHashes = 2, bf_numItems = 1\<rparr>"
    by code_simp
  have more: "BF_Adds \<lparr>bf_bits = [False, False, True, False, False, True, False, False],
          bf_size = 8, bf_numHashes = 2, bf_numItems = 1\<rparr> [[1]] =
     Inr \<lparr>bf_bits = [False, False, True, True, True, True, False, False],
          bf_size = 8, bf_numHashes = 2, bf_numItems = 2\<rparr>"
    by code_simp
  have wf: "bf_size (NewBloomFilter 8 2) \<noteq> 0
     \<and> length (bf_bits (NewBloomFilter 8 2)) = unat (bf_size (NewBloomFilter 8 2))"
    by (simp add: NewBloomFilter_def)
  from BloomFilter_no_false_negatives [of "NewBloomFilter 8 2" "[]" _ "[[1]]"] one more wf
  show ?thesis by simp
qed

lemma or_bits_self:
  assumes "\<forall>i \<in> set is. i < length bits"
  shows "or_bits bits bits is = Inr bits"
  using assms by (induction "is") simp_all

text \<open>
  C6 as the code has it. The union of a filter with a distinct filter in the same
  state leaves the bit vector (and the parameters) of the receiver as they were and
  doubles its inserted-count modulo \<open>2 ^ 32\<close>; the argument is not changed.
\<close>

theorem BF_Union_equal_state:
  assumes "st p = Some a" and "st q = Some a" and "p \<noteq> q"
    and "length (bf_bits a) = unat (bf_size a)"
  shows "BF_Union st p q = Inr (st(p \<mapsto> a\<lparr>bf_numItems := 2 * bf_numItems a\<rparr>))"
proof -
  have "or_bits (bf_bits a) (bf_bits a) [0..<unat (bf_size a)] = Inr (bf_bits a)"
    using assms(4) by (intro or_bits_self) simp
  with assms(1-3) show ?thesis by (simp add: BF_Union_def)
qed

theorem BF_Union_equal_state_witness:
  "BF_Union [0 \<mapsto> \<lparr>bf_bits = [False, True], bf_size = 2, bf_numHashes = 1, bf_numItems = 1\<rparr>,
             1 \<mapsto> \<lparr>bf_bits = [False, True], bf_size = 2, bf_numHashes = 1, bf_numItems = 1\<rparr>] 0 1
   = Inr [0 \<mapsto> \<lparr>bf_bits = [False, True], bf_size = 2, bf_numHashes = 1, bf_numItems = 2\<rparr>,
          1 \<mapsto> \<lparr>bf_bits = [False, True], bf_size = 2, bf_numHashes = 1, bf_numItems = 1\<rparr>]"
  using BF_Union_equal_state
    [of "[0 \<mapsto> \<lparr>bf_bits = [False, True], bf_size = 2, bf_numHashes = 1, bf_numItems = 1\<rparr>,
          1 \<mapsto> \<lparr>bf_bits = [False, True], bf_size = 2, bf_numHashes = 1, bf_numItems = 1\<rparr>]"
        0 "\<lparr>bf_bits = [False, True], bf_size = 2, bf_numHashes = 1, bf_numItems = 1\<rparr>" 1]
  by (simp add: fun_upd_twist)

lemma BF_Add_example_state: "BF_Add (NewBloomFilter 2 1) [] = Inr \<lparr>bf_bits = [False, True], bf_size = 2, bf_numHashes = 1, bf_numItems = 1\<rparr>"
  by code_simp

text \<open>
  The claim C6 as stated fails. A filter that holds one item (the state that \<open>Add\<close>
  of the empty key gives on a fresh filter of size 2 with one hash) never returns from
  the union with itself, and after the union with a second filter in the same state
  its inserted-count is 2, not 1.
\<close>

theorem BF_Union_idempotent_counterexample:
  "BF_Union [0 \<mapsto> \<lparr>bf_bits = [False, True], bf_size = 2, bf_numHashes = 1, bf_numItems = 1\<rparr>] 0 0
     = Inl Deadlock
   \<and> BF_Union [0 \<mapsto> \<lparr>bf_bits = [False, True], bf_size = 2, bf_numHashes = 1, bf_numItems = 1\<rparr>,
               1 \<mapsto> \<lparr>bf_bits = [False, True], bf_size = 2, bf_numHashes = 1, bf_numItems = 1\<rparr>] 0 1
     = Inr [0 \<mapsto> \<lparr>bf_bits = [False, True], bf_size = 2, bf_numHashes = 1, bf_numItems = 2\<rparr>,
            1 \<mapsto> \<lparr>bf_bits = [False, True], bf_size = 2, bf_numHashes = 1, bf_numItems = 1\<rparr>]
   \<and> \<lparr>bf_bits = [False, True], bf_size = 2, bf_numHashes = 1, bf_numItems = 2 :: 32 word\<rparr>
     \<noteq> \<lparr>bf_bits = [False, True], bf_size = 2, bf_numHashes = 1, bf_numItems = 1\<rparr>"
  by (simp add: BF_Union_def fun_upd_twist upt_rec)

subsection \<open>Count-Min sketch\<close>

lemma unat_ucast_up: "unat (ucast (w :: 32 word) :: 64 word) = unat w"
  by transfer (simp add: take_bit_nat_eq_self)

lemma unat_ucast_down: "unat (ucast (x :: 64 word) :: 32 word) = unat x mod 2 ^ 32"
  by (simp add: unsigned_ucast_eq take_bit_eq_mod)

lemma unat_lt_2p32: "unat (w :: 32 word) < 2 ^ 32"
  using unsigned_less [of w] by simp

lemma getBucket_less:
  assumes "getBucket cms hash row = Inr b"
  shows "unat b < unat (cms_width cms)"
proof -
  let ?w = "cms_width cms"
  from assms obtain x :: "64 word" where nz: "?w \<noteq> 0" and b: "b = ucast (x mod ucast ?w)"
    by (auto simp add: getBucket_def Let_def split: if_splits)
  from nz have pos: "0 < unat ?w" by (simp add: unat_gt_0)
  have "unat (x mod ucast ?w) = unat x mod unat ?w"
    by (simp add: unat_mod unat_ucast_up)
  with pos have lt: "unat (x mod ucast ?w) < unat ?w" by simp
  with unat_lt_2p32 [of ?w] have "unat (x mod ucast ?w) mod 2 ^ 32 = unat (x mod ucast ?w)"
    by simp
  with lt b show ?thesis by (simp add: unat_ucast_down)
qed

lemma getBucket_total:
  assumes "cms_shape cms" and "cms_width cms \<noteq> 0" and "i < unat (cms_depth cms)"
  shows "\<exists>b. getBucket cms hash i = Inr b \<and> rowBucket cms hash i = unat b"
  using assms by (simp add: getBucket_def rowBucket_def cms_shape_def Let_def)

lemma getBucket_same_params:
  assumes "cms_same_params cms cms'"
  shows "getBucket cms' hash i = getBucket cms hash i"
  using assms by (simp add: getBucket_def cms_same_params_def)

lemma rowBucket_same_params:
  assumes "cms_same_params cms cms'"
  shows "rowBucket cms' hash i = rowBucket cms hash i"
  using assms by (simp add: rowBucket_def getBucket_same_params)

lemma cell_load_same_params:
  assumes "cms_same_params cms cms'"
  shows "cell_load cms' ops i j = cell_load cms ops i j"
  using assms by (simp add: cell_load_def rowBucket_same_params)

lemma update_rows_spec:
  assumes "cms_shape cms" and "cms_width cms \<noteq> 0"
    and "\<forall>i \<in> set rows. i < unat (cms_depth cms)" and "distinct rows"
  shows "\<exists>cms'. update_rows cms hash c rows = Inr cms' \<and> cms_shape cms'
           \<and> cms_same_params cms cms' \<and> cms_total cms' = cms_total cms
           \<and> (\<forall>i < unat (cms_depth cms). \<forall>j < unat (cms_width cms).
                 cms_count cms' ! i ! j =
                 cms_count cms ! i ! j
                   + (if i \<in> set rows \<and> rowBucket cms hash i = j then c else 0))"
  using assms
proof (induction rows arbitrary: cms)
  case Nil
  then show ?case by (simp add: cms_same_params_def)
next
  case (Cons r rows)
  let ?d = "unat (cms_depth cms)" and ?w = "unat (cms_width cms)"
  from Cons.prems have r: "r < ?d" and rnot: "r \<notin> set rows" by simp_all
  from getBucket_total [OF Cons.prems(1,2) r]
  obtain b where gb: "getBucket cms hash r = Inr b" and rb: "rowBucket cms hash r = unat b"
    by blast
  from getBucket_less [OF gb] have bw: "unat b < ?w" .
  from Cons.prems(1) r have lenc: "length (cms_count cms) = ?d"
    and lenr: "length (cms_count cms ! r) = ?w"
    and rows_len: "\<forall>i < ?d. length (cms_count cms ! i) = ?w"
    by (simp_all add: cms_shape_def)
  define cms1 where "cms1 = cms\<lparr>cms_count := (cms_count cms)
        [r := (cms_count cms ! r)[unat b := cms_count cms ! r ! unat b + c]]\<rparr>"
  have step: "update_rows cms hash c (r # rows) = update_rows cms1 hash c rows"
    using gb r bw lenc lenr by (simp add: cms1_def)
  have sp: "cms_same_params cms cms1" by (simp add: cms_same_params_def cms1_def)
  have d1: "unat (cms_depth cms1) = ?d" and w1: "unat (cms_width cms1) = ?w"
    and nz1: "cms_width cms1 \<noteq> 0"
    using Cons.prems(2) by (simp_all add: cms1_def)
  have row1: "length (cms_count cms1 ! i) = ?w" if "i < ?d" for i
  proof (cases "i = r")
    case True
    with lenc r lenr show ?thesis by (simp add: cms1_def)
  next
    case False
    with lenc that rows_len show ?thesis by (simp add: cms1_def)
  qed
  have shape1: "cms_shape cms1"
    unfolding cms_shape_def d1 w1 using row1 Cons.prems(1)
    by (simp add: cms1_def cms_shape_def)
  have cell1: "cms_count cms1 ! i ! j =
      cms_count cms ! i ! j + (if i = r \<and> j = unat b then c else 0)"
    if "i < ?d" "j < ?w" for i j
  proof (cases "i = r")
    case True
    with lenc r lenr that show ?thesis by (simp add: cms1_def nth_list_update)
  next
    case False
    with lenc that show ?thesis by (simp add: cms1_def)
  qed
  have rows1: "\<forall>i \<in> set rows. i < unat (cms_depth cms1)"
    using Cons.prems(3) d1 by simp
  from Cons.prems(4) have dist: "distinct rows" by simp
  from Cons.IH [OF shape1 nz1 rows1 dist]
  obtain cms' where res: "update_rows cms1 hash c rows = Inr cms'"
    and shape': "cms_shape cms'" and sp': "cms_same_params cms1 cms'"
    and tot: "cms_total cms' = cms_total cms1"
    and cells: "\<forall>i < ?d. \<forall>j < ?w. cms_count cms' ! i ! j =
          cms_count cms1 ! i ! j + (if i \<in> set rows \<and> rowBucket cms1 hash i = j then c else 0)"
    unfolding d1 w1 by blast
  have sp2: "cms_same_params cms cms'"
    using sp sp' by (simp add: cms_same_params_def)
  have tot2: "cms_total cms' = cms_total cms" using tot by (simp add: cms1_def)
  have cells2: "cms_count cms' ! i ! j =
      cms_count cms ! i ! j + (if i \<in> set (r # rows) \<and> rowBucket cms hash i = j then c else 0)"
    if ij: "i < ?d" "j < ?w" for i j
  proof -
    from cells ij have "cms_count cms' ! i ! j =
        cms_count cms1 ! i ! j + (if i \<in> set rows \<and> rowBucket cms hash i = j then c else 0)"
      by (simp add: rowBucket_same_params [OF sp])
    with cell1 [OF ij] rnot rb show ?thesis by auto
  qed
  from step res shape' sp2 tot2 cells2 show ?case by auto
qed

lemma CMS_Update_spec:
  assumes "cms_shape cms" and "cms_width cms \<noteq> 0"
  shows "\<exists>cms'. CMS_Update cms item c = Inr cms' \<and> cms_shape cms'
           \<and> cms_same_params cms cms'
           \<and> (\<forall>i < unat (cms_depth cms). \<forall>j < unat (cms_width cms).
                 cms_count cms' ! i ! j =
                 cms_count cms ! i ! j
                   + (if rowBucket cms (cms_hash item) i = j then c else 0))"
proof -
  have rows: "\<forall>i \<in> set [0..<unat (cms_depth cms)]. i < unat (cms_depth cms)" by simp
  from update_rows_spec [OF assms rows, of "cms_hash item" c]
  obtain cms1 where res: "update_rows cms (cms_hash item) c [0..<unat (cms_depth cms)] = Inr cms1"
    and shape: "cms_shape cms1" and sp: "cms_same_params cms cms1"
    and cells: "\<forall>i < unat (cms_depth cms). \<forall>j < unat (cms_width cms).
          cms_count cms1 ! i ! j =
          cms_count cms ! i ! j
            + (if i \<in> set [0..<unat (cms_depth cms)] \<and> rowBucket cms (cms_hash item) i = j
               then c else 0)"
    by auto
  let ?cms' = "cms1\<lparr>cms_total := cms_total cms1 + ucast c\<rparr>"
  have "CMS_Update cms item c = Inr ?cms'" using res by (simp add: CMS_Update_def)
  moreover have "cms_shape ?cms'" using shape by (simp add: cms_shape_def)
  moreover have "cms_same_params cms ?cms'" using sp by (simp add: cms_same_params_def)
  moreover have "\<forall>i < unat (cms_depth cms). \<forall>j < unat (cms_width cms).
      cms_count ?cms' ! i ! j =
      cms_count cms ! i ! j + (if rowBucket cms (cms_hash item) i = j then c else 0)"
    using cells by simp
  ultimately show ?thesis by blast
qed

lemma cell_load_snoc:
  "cell_load cms (ops @ [(item, c)]) i j =
     cell_load cms ops i j + (if rowBucket cms (cms_hash item) i = j then unat c else 0)"
  by (simp add: cell_load_def)

lemma unat_add_mod:
  fixes x c :: "32 word"
  assumes "unat x = n mod 2 ^ 32"
  shows "unat (x + c) = (n + unat c) mod 2 ^ 32"
  using assms by (simp add: unat_word_ariths mod_add_left_eq)

lemma CMS_Update_inv:
  assumes "cms_inv cms ops" and "cms_width cms \<noteq> 0"
  shows "\<exists>cms'. CMS_Update cms item c = Inr cms' \<and> cms_inv cms' (ops @ [(item, c)])
           \<and> cms_same_params cms cms'"
proof -
  from assms(1) have shape: "cms_shape cms"
    and inv: "\<forall>i < unat (cms_depth cms). \<forall>j < unat (cms_width cms).
           unat (cms_count cms ! i ! j) = cell_load cms ops i j mod 2 ^ 32"
    by (simp_all add: cms_inv_def)
  from CMS_Update_spec [OF shape assms(2), of item c]
  obtain cms' where res: "CMS_Update cms item c = Inr cms'" and shape': "cms_shape cms'"
    and sp: "cms_same_params cms cms'"
    and cells: "\<forall>i < unat (cms_depth cms). \<forall>j < unat (cms_width cms).
          cms_count cms' ! i ! j =
          cms_count cms ! i ! j + (if rowBucket cms (cms_hash item) i = j then c else 0)"
    by blast
  from sp have d: "cms_depth cms' = cms_depth cms" and w: "cms_width cms' = cms_width cms"
    by (simp_all add: cms_same_params_def)
  have "unat (cms_count cms' ! i ! j) = cell_load cms' (ops @ [(item, c)]) i j mod 2 ^ 32"
    if ij: "i < unat (cms_depth cms)" "j < unat (cms_width cms)" for i j
  proof -
    from inv ij have old: "unat (cms_count cms ! i ! j) = cell_load cms ops i j mod 2 ^ 32"
      by simp
    show ?thesis
    proof (cases "rowBucket cms (cms_hash item) i = j")
      case True
      with cells ij have "cms_count cms' ! i ! j = cms_count cms ! i ! j + c" by simp
      with unat_add_mod [OF old, of c] True show ?thesis
        by (simp add: cell_load_snoc cell_load_same_params [OF sp] rowBucket_same_params [OF sp])
    next
      case False
      with cells ij have "cms_count cms' ! i ! j = cms_count cms ! i ! j" by simp
      with old False show ?thesis
        by (simp add: cell_load_snoc cell_load_same_params [OF sp] rowBucket_same_params [OF sp])
    qed
  qed
  with shape' d w have "cms_inv cms' (ops @ [(item, c)])" by (simp add: cms_inv_def)
  with res sp show ?thesis by blast
qed

lemma CMS_Updates_inv:
  assumes "cms_inv cms done" and "cms_width cms \<noteq> 0"
  shows "\<exists>cms'. CMS_Updates cms rest = Inr cms' \<and> cms_inv cms' (done @ rest)
           \<and> cms_same_params cms cms'"
  using assms
proof (induction rest arbitrary: cms "done")
  case Nil
  then show ?case by (simp add: cms_same_params_def)
next
  case (Cons op rest)
  obtain item c where op: "op = (item, c)" by (cases op)
  from CMS_Update_inv [OF Cons.prems, of item c]
  obtain cms1 where one: "CMS_Update cms item c = Inr cms1"
    and inv1: "cms_inv cms1 (done @ [(item, c)])" and sp1: "cms_same_params cms cms1"
    by blast
  from sp1 Cons.prems(2) have nz1: "cms_width cms1 \<noteq> 0" by (simp add: cms_same_params_def)
  from Cons.IH [OF inv1 nz1]
  obtain cms' where more: "CMS_Updates cms1 rest = Inr cms'"
    and inv': "cms_inv cms' ((done @ [(item, c)]) @ rest)" and sp': "cms_same_params cms1 cms'"
    by blast
  from sp1 sp' have "cms_same_params cms cms'" by (simp add: cms_same_params_def)
  with one more inv' op show ?case by simp
qed

lemma NewCountMinSketch_inv: "cms_inv (NewCountMinSketch width depth) []"
  by (simp add: cms_inv_def cms_shape_def NewCountMinSketch_def cell_load_def)

lemma min_rows_lower_bound:
  assumes "cms_shape cms" and "cms_width cms \<noteq> 0"
    and "\<forall>i \<in> set rows. i < unat (cms_depth cms)"
    and "\<forall>i < unat (cms_depth cms). t \<le> unat (cms_count cms ! i ! rowBucket cms hash i)"
    and "t \<le> unat minCount"
  shows "\<exists>e. min_rows cms hash minCount rows = Inr e \<and> t \<le> unat e"
  using assms
proof (induction rows arbitrary: minCount)
  case Nil
  then show ?case by simp
next
  case (Cons r rows)
  from Cons.prems have r: "r < unat (cms_depth cms)" by simp
  from getBucket_total [OF Cons.prems(1,2) r]
  obtain b where gb: "getBucket cms hash r = Inr b" and rb: "rowBucket cms hash r = unat b"
    by blast
  from getBucket_less [OF gb] have bw: "unat b < unat (cms_width cms)" .
  from Cons.prems(1) r have lenc: "r < length (cms_count cms)"
    and lenr: "length (cms_count cms ! r) = unat (cms_width cms)"
    by (simp_all add: cms_shape_def)
  let ?m = "if cms_count cms ! r ! unat b < minCount then cms_count cms ! r ! unat b else minCount"
  have step: "min_rows cms hash minCount (r # rows) = min_rows cms hash ?m rows"
    using gb lenc lenr bw by simp
  from Cons.prems(4) r rb have "t \<le> unat (cms_count cms ! r ! unat b)" by auto
  with Cons.prems(5) have tm: "t \<le> unat ?m" by simp
  from Cons.prems(3) have rows: "\<forall>i \<in> set rows. i < unat (cms_depth cms)" by simp
  from Cons.IH [OF Cons.prems(1,2) rows Cons.prems(4) tm] step show ?case by simp
qed

lemma true_count_le_cell_load:
  "true_count ops k \<le> cell_load cms ops i (rowBucket cms (cms_hash k) i)"
  unfolding true_count_def cell_load_def
  by (rule sum_list_mono) auto

lemma cell_load_le_total_count: "cell_load cms ops i j \<le> total_count ops"
  unfolding total_count_def cell_load_def
  by (rule sum_list_mono) auto

text \<open>
  C2 as the code has it. On a sketch of a width that is not zero every sequence of
  updates returns and so does \<open>Estimate\<close>; as long as the sum of all deltas applied
  to the sketch is below \<open>2 ^ 32\<close> (so that no 32-bit cell has wrapped around), the
  estimate of every key is at least the sum of the deltas applied for that key.
\<close>

theorem CMS_Estimate_never_underestimates:
  assumes "width \<noteq> 0"
  shows "\<exists>cms e. CMS_Updates (NewCountMinSketch width depth) ops = Inr cms
           \<and> CMS_Estimate cms k = Inr e
           \<and> (total_count ops < 2 ^ 32 \<longrightarrow> true_count ops k \<le> unat e)"
proof -
  let ?new = "NewCountMinSketch width depth"
  have nz: "cms_width ?new \<noteq> 0" using assms by (simp add: NewCountMinSketch_def)
  from CMS_Updates_inv [OF NewCountMinSketch_inv nz, of ops]
  obtain cms where run: "CMS_Updates ?new ops = Inr cms" and inv: "cms_inv cms ops"
    and sp: "cms_same_params ?new cms"
    by auto
  from inv have shape: "cms_shape cms"
    and cells: "\<forall>i < unat (cms_depth cms). \<forall>j < unat (cms_width cms).
           unat (cms_count cms ! i ! j) = cell_load cms ops i j mod 2 ^ 32"
    by (simp_all add: cms_inv_def)
  from sp nz have nz': "cms_width cms \<noteq> 0" by (simp add: cms_same_params_def)
  have rows: "\<forall>i \<in> set [0..<unat (cms_depth cms)]. i < unat (cms_depth cms)" by simp
  have any: "\<exists>e. CMS_Estimate cms k = Inr e \<and> 0 \<le> unat e"
    unfolding CMS_Estimate_def
    by (rule min_rows_lower_bound [OF shape nz' rows]) simp_all
  have bound: "\<exists>e. CMS_Estimate cms k = Inr e \<and> true_count ops k \<le> unat e"
    if small: "total_count ops < 2 ^ 32"
    unfolding CMS_Estimate_def
  proof (rule min_rows_lower_bound [OF shape nz' rows])
    show "\<forall>i < unat (cms_depth cms).
        true_count ops k \<le> unat (cms_count cms ! i ! rowBucket cms (cms_hash k) i)"
    proof (intro allI impI)
      fix i assume i: "i < unat (cms_depth cms)"
      from getBucket_total [OF shape nz' i, of "cms_hash k"] getBucket_less
      have j: "rowBucket cms (cms_hash k) i < unat (cms_width cms)" by auto
      let ?j = "rowBucket cms (cms_hash k) i"
      from cell_load_le_total_count [of cms ops i ?j] small
      have "cell_load cms ops i ?j mod 2 ^ 32 = cell_load cms ops i ?j" by simp
      with cells i j have "unat (cms_count cms ! i ! ?j) = cell_load cms ops i ?j" by simp
      with true_count_le_cell_load [of ops k cms i]
      show "true_count ops k \<le> unat (cms_count cms ! i ! ?j)" by simp
    qed
    from true_count_le_cell_load [of ops k cms 0] cell_load_le_total_count [of cms ops 0] small
    have "true_count ops k < 2 ^ 32" by (meson le_less_trans)
    then show "true_count ops k \<le> unat (0xFFFFFFFF :: 32 word)" by simp
  qed
  from any obtain e where e: "CMS_Estimate cms k = Inr e" by blast
  with bound have "total_count ops < 2 ^ 32 \<longrightarrow> true_count ops k \<le> unat e" by auto
  with run e show ?thesis by blast
qed

theorem CMS_Estimate_never_underestimates_witness:
  "(4 :: 32 word) \<noteq> 0
   \<and> CMS_Updates (NewCountMinSketch 4 2) [([], 3), ([1], 1), ([], 2)]
     = Inr \<lparr>cms_width = 4, cms_depth = 2, cms_count = [[5, 0, 0, 1], [0, 5, 1, 0]],
            cms_hashA = [1, 3], cms_hashB = [7, 10], cms_total = 6\<rparr>
   \<and> CMS_Estimate \<lparr>cms_width = 4, cms_depth = 2, cms_count = [[5, 0, 0, 1], [0, 5, 1, 0]],
            cms_hashA = [1, 3], cms_hashB = [7, 10], cms_total = 6\<rparr> [] = Inr 5
   \<and> total_count [([], 3), ([1], 1), ([], 2)] < 2 ^ 32
   \<and> true_count [([], 3), ([1], 1), ([], 2)] [] \<le> unat (5 :: 32 word)"
proof -
  have run: "CMS_Updates (NewCountMinSketch 4 2) [([], 3), ([1], 1), ([], 2)]
     = Inr \<lparr>cms_width = 4, cms_depth = 2, cms_count = [[5, 0, 0, 1], [0, 5, 1, 0]],
            cms_hashA = [1, 3], cms_hashB = [7, 10], cms_total = 6\<rparr>"
    by code_simp
  have est: "CMS_Estimate \<lparr>cms_width = 4, cms_depth = 2, cms_count = [[5, 0, 0, 1], [0, 5, 1, 0]],
            cms_hashA = [1, 3], cms_hashB = [7, 10], cms_total = 6\<rparr> [] = Inr 5"
    by code_simp
  have small: "total_count [([], 3), ([1], 1), ([], 2)] < 2 ^ 32"
    by (simp add: total_count_def)
  have nz: "(4 :: 32 word) \<noteq> 0" by simp
  from CMS_Estimate_never_underestimates [OF nz, of 2 "[([], 3), ([1], 1), ([], 2)]" "[]"]
    run est small nz
  show ?thesis by simp
qed

text \<open>
  The claim C2 as stated fails where a cell wraps around: after the updates of one key
  by \<open>2 ^ 32 - 1\<close> and by 1 its cell is 0 again, and the estimate 0 is below the sum
  \<open>2 ^ 32\<close> of the deltas.
\<close>

theorem CMS_Estimate_wraps_counterexample:
  "CMS_Updates (NewCountMinSketch 2 1) [([], 0xFFFFFFFF), ([], 1)]
     = Inr \<lparr>cms_width = 2, cms_depth = 1, cms_count = [[0, 0]], cms_hashA = [1],
            cms_hashB = [7], cms_total = 4294967296\<rparr>
   \<and> CMS_Estimate \<lparr>cms_width = 2, cms_depth = 1, cms_count = [[0, 0]], cms_hashA = [1],
            cms_hashB = [7], cms_total = 4294967296\<rparr> [] = Inr 0
   \<and> true_count [([], 0xFFFFFFFF), ([], 1)] [] = 4294967296
   \<and> unat (0 :: 32 word) < true_count [([], 0xFFFFFFFF), ([], 1)] []"
proof -
  have run: "CMS_Updates (NewCountMinSketch 2 1) [([], 0xFFFFFFFF), ([], 1)]
     = Inr \<lparr>cms_width = 2, cms_depth = 1, cms_count = [[0, 0]], cms_hashA = [1],
            cms_hashB = [7], cms_total = 4294967296\<rparr>"
    by code_simp
  have est: "CMS_Estimate \<lparr>cms_width = 2, cms_depth = 1, cms_count = [[0, 0]], cms_hashA = [1],
            cms_hashB = [7], cms_total = 4294967296\<rparr> [] = Inr 0"
    by code_simp
  have tc: "true_count [([], 0xFFFFFFFF), ([], 1)] [] = 4294967296"
    by (simp add: true_count_def)
  from run est tc show ?thesis by simp
qed

subsection \<open>HyperLogLog: leading zeros\<close>


lemma unat_push_bit_64:
  fixes x :: "64 word"
  assumes "unat x < 2 ^ (64 - k)" and "k \<le> 64"
  shows "unat (push_bit k x) = unat x * 2 ^ k"
proof -
  from assms have "unat x * 2 ^ k < 2 ^ (64 - k) * 2 ^ k" by simp
  also from assms(2) have "\<dots> = 2 ^ 64" by (simp flip: power_add)
  finally have "unat x * 2 ^ k < 2 ^ 64" .
  then have "take_bit 64 (unat x * 2 ^ k) = unat x * 2 ^ k"
    by (simp add: take_bit_nat_eq_self)
  moreover have "unat (push_bit k x) = take_bit 64 (push_bit k (unat x))"
    by (simp only: unsigned_push_bit_eq) simp
  ultimately show ?thesis by (simp add: push_bit_eq_mult)
qed

lemma countLeadingZeros_unfold:
  fixes x :: "64 word"
  assumes "x \<noteq> 0"
  defines "x1 \<equiv> (if unat x < 2 ^ 32 then push_bit 32 x else x)"
    and "n1 \<equiv> (if unat x < 2 ^ 32 then 32 else 0 :: int)"
  defines "x2 \<equiv> (if unat x1 < 2 ^ 48 then push_bit 16 x1 else x1)"
    and "n2 \<equiv> (if unat x1 < 2 ^ 48 then n1 + 16 else n1)"
  defines "x3 \<equiv> (if unat x2 < 2 ^ 56 then push_bit 8 x2 else x2)"
    and "n3 \<equiv> (if unat x2 < 2 ^ 56 then n2 + 8 else n2)"
  defines "x4 \<equiv> (if unat x3 < 2 ^ 60 then push_bit 4 x3 else x3)"
    and "n4 \<equiv> (if unat x3 < 2 ^ 60 then n3 + 4 else n3)"
  defines "x5 \<equiv> (if unat x4 < 2 ^ 62 then push_bit 2 x4 else x4)"
    and "n5 \<equiv> (if unat x4 < 2 ^ 62 then n4 + 2 else n4)"
  shows "countLeadingZeros x = (if unat x5 < 2 ^ 63 then n5 + 1 else n5)"
proof -
  have le: "(y \<le> 0x00000000FFFFFFFF) = (unat y < 2 ^ 32)"
       "(y \<le> 0x0000FFFFFFFFFFFF) = (unat y < 2 ^ 48)"
       "(y \<le> 0x00FFFFFFFFFFFFFF) = (unat y < 2 ^ 56)"
       "(y \<le> 0x0FFFFFFFFFFFFFFF) = (unat y < 2 ^ 60)"
       "(y \<le> 0x3FFFFFFFFFFFFFFF) = (unat y < 2 ^ 62)"
       "(y \<le> 0x7FFFFFFFFFFFFFFF) = (unat y < 2 ^ 63)" for y :: "64 word"
    by (auto simp add: word_le_nat_alt)
  show ?thesis
    unfolding countLeadingZeros_def le Let_def x1_def n1_def x2_def n2_def x3_def n3_def
      x4_def n4_def x5_def n5_def
    using assms(1) by (simp only: if_False split_conv if_distrib [of fst] if_distrib [of snd] fst_conv snd_conv case_prod_beta) simp
qed

lemma pow2_less_exp:
  fixes a b :: nat
  assumes "(2::nat) ^ a \<le> u" and "u < 2 ^ b"
  shows "a < b"
proof -
  from assms have "(2::nat) ^ a < 2 ^ b" by (rule le_less_trans)
  then show ?thesis by (rule power_less_imp_less_exp [rotated]) simp
qed

lemma clz_step:
  fixes x :: "64 word"
  assumes lo: "2 ^ (63 - d) \<le> unat x" and hi: "unat x < 2 ^ (64 - d)"
    and d: "d < 2 * k" and k: "2 * k \<le> 64"
  shows "(unat x < 2 ^ (64 - k) \<longrightarrow>
            k \<le> d \<and> d - k < k
            \<and> 2 ^ (63 - (d - k)) \<le> unat (push_bit k x)
            \<and> unat (push_bit k x) < 2 ^ (64 - (d - k)))
       \<and> (\<not> unat x < 2 ^ (64 - k) \<longrightarrow> d < k)"
proof (intro conjI impI)
  assume small: "unat x < 2 ^ (64 - k)"
  from pow2_less_exp [OF lo small] d k show kd: "k \<le> d" by simp
  from d kd show "d - k < k" by simp
  from k have "k \<le> 64" by simp
  from unat_push_bit_64 [OF small this] have sh: "unat (push_bit k x) = unat x * 2 ^ k" .
  from kd d k have e1: "63 - (d - k) = (63 - d) + k" and e2: "64 - (d - k) = (64 - d) + k"
    by simp_all
  from lo show "2 ^ (63 - (d - k)) \<le> unat (push_bit k x)"
    unfolding sh e1 by (simp add: power_add)
  from hi show "unat (push_bit k x) < 2 ^ (64 - (d - k))"
    unfolding sh e2 by (simp add: power_add)
next
  assume "\<not> unat x < 2 ^ (64 - k)"
  then have "2 ^ (64 - k) \<le> unat x" by simp
  from pow2_less_exp [OF this hi] show "d < k" by simp
qed

lemma leading_zeros_bounds_ex:
  fixes x :: "64 word"
  assumes "x \<noteq> 0"
  shows "\<exists>d < 64. 2 ^ (63 - d) \<le> unat x \<and> unat x < 2 ^ (64 - d)"
proof -
  from assms have "1 \<le> unat x" by (simp add: unat_gt_0 Suc_le_eq)
  from ex_power_ivl1 [OF _ this, of 2]
  obtain m where m: "2 ^ m \<le> unat x" "unat x < 2 ^ (m + 1)" by auto
  have "unat x < 2 ^ 64" using unsigned_less [of x] by simp
  from pow2_less_exp [OF m(1) this] have m64: "m < 64" .
  then have "63 - (63 - m) = m" "64 - (63 - m) = m + 1" by simp_all
  with m m64 show ?thesis by (intro exI [of _ "63 - m"]) simp
qed

lemma clz_step_inv:
  fixes x :: "64 word" and n :: int
  assumes sum: "int D = n + int d"
    and lo: "2 ^ (63 - d) \<le> unat x" and hi: "unat x < 2 ^ (64 - d)"
    and d: "d < 2 * k" and k: "2 * k \<le> 64"
  shows "\<exists>d'. int D = (if unat x < 2 ^ (64 - k) then n + int k else n) + int d'
            \<and> 2 ^ (63 - d') \<le> unat (if unat x < 2 ^ (64 - k) then push_bit k x else x)
            \<and> unat (if unat x < 2 ^ (64 - k) then push_bit k x else x) < 2 ^ (64 - d')
            \<and> d' < k"
proof (cases "unat x < 2 ^ (64 - k)")
  case True
  with clz_step [OF lo hi d k]
  have kd: "k \<le> d" and dk: "d - k < k"
    and lo': "2 ^ (63 - (d - k)) \<le> unat (push_bit k x)"
    and hi': "unat (push_bit k x) < 2 ^ (64 - (d - k))"
    by blast+
  from sum kd have "int D = (n + int k) + int (d - k)" by simp
  with True dk lo' hi' show ?thesis
    by (intro exI [of _ "d - k"]) (simp only: if_True simp_thms)
next
  case False
  with clz_step [OF lo hi d k] sum lo hi show ?thesis
    by (intro exI [of _ d]) simp
qed

lemma countLeadingZeros_bounds:
  fixes x :: "64 word"
  assumes lo: "2 ^ (63 - d) \<le> unat x" and hi: "unat x < 2 ^ (64 - d)" and d: "d < 64"
  shows "countLeadingZeros x = int d"
proof -
  from lo have "0 < unat x" by (simp add: less_le_trans [of 0 "2 ^ (63 - d)"])
  then have nz: "x \<noteq> 0" by (simp add: unat_gt_0)
  define x1 where "x1 = (if unat x < 2 ^ 32 then push_bit 32 x else x)"
  define n1 where "n1 = (if unat x < 2 ^ 32 then 32 else 0 :: int)"
  define x2 where "x2 = (if unat x1 < 2 ^ 48 then push_bit 16 x1 else x1)"
  define n2 where "n2 = (if unat x1 < 2 ^ 48 then n1 + 16 else n1)"
  define x3 where "x3 = (if unat x2 < 2 ^ 56 then push_bit 8 x2 else x2)"
  define n3 where "n3 = (if unat x2 < 2 ^ 56 then n2 + 8 else n2)"
  define x4 where "x4 = (if unat x3 < 2 ^ 60 then push_bit 4 x3 else x3)"
  define n4 where "n4 = (if unat x3 < 2 ^ 60 then n3 + 4 else n3)"
  define x5 where "x5 = (if unat x4 < 2 ^ 62 then push_bit 2 x4 else x4)"
  define n5 where "n5 = (if unat x4 < 2 ^ 62 then n4 + 2 else n4)"
  have res: "countLeadingZeros x = (if unat x5 < 2 ^ 63 then n5 + 1 else n5)"
    unfolding x1_def n1_def x2_def n2_def x3_def n3_def x4_def n4_def x5_def n5_def
    by (rule countLeadingZeros_unfold [OF nz])
  have s0: "int d = 0 + int d" by simp
  from clz_step_inv [OF s0 lo hi, of 32] d
  obtain d1 where s1: "int d = n1 + int d1" and lo1: "2 ^ (63 - d1) \<le> unat x1"
    and hi1: "unat x1 < 2 ^ (64 - d1)" and d1: "d1 < 32"
    by (auto simp add: x1_def n1_def)
  from clz_step_inv [OF s1 lo1 hi1, of 16] d1
  obtain d2 where s2: "int d = n2 + int d2" and lo2: "2 ^ (63 - d2) \<le> unat x2"
    and hi2: "unat x2 < 2 ^ (64 - d2)" and d2: "d2 < 16"
    by (auto simp add: x2_def n2_def)
  from clz_step_inv [OF s2 lo2 hi2, of 8] d2
  obtain d3 where s3: "int d = n3 + int d3" and lo3: "2 ^ (63 - d3) \<le> unat x3"
    and hi3: "unat x3 < 2 ^ (64 - d3)" and d3: "d3 < 8"
    by (auto simp add: x3_def n3_def)
  from clz_step_inv [OF s3 lo3 hi3, of 4] d3
  obtain d4 where s4: "int d = n4 + int d4" and lo4: "2 ^ (63 - d4) \<le> unat x4"
    and hi4: "unat x4 < 2 ^ (64 - d4)" and d4: "d4 < 4"
    by (auto simp add: x4_def n4_def)
  from clz_step_inv [OF s4 lo4 hi4, of 2] d4
  obtain d5 where s5: "int d = n5 + int d5" and lo5: "2 ^ (63 - d5) \<le> unat x5"
    and hi5: "unat x5 < 2 ^ (64 - d5)" and d5: "d5 < 2"
    by (auto simp add: x5_def n5_def)
  show ?thesis
  proof (cases "unat x5 < 2 ^ 63")
    case True
    from pow2_less_exp [OF lo5 True] d5 have "d5 = 1" by simp
    with s5 res True show ?thesis by simp
  next
    case False
    then have "2 ^ 63 \<le> unat x5" by simp
    from pow2_less_exp [OF this hi5] have "d5 = 0" by simp
    with s5 res False show ?thesis by simp
  qed
qed

lemma bit_from_bounds:
  fixes x :: "64 word"
  assumes lo: "2 ^ m \<le> unat x" and hi: "unat x < 2 ^ (m + 1)"
  shows "bit x m \<and> (\<forall>i > m. \<not> bit x i)"
proof -
  have bit_iff: "bit x i = odd (unat x div 2 ^ i)" for i
    using bit_unsigned_iff [of x i, where ?'a = nat] by (simp add: bit_nat_def)
  from lo hi have "unat x div 2 ^ m = 1"
    by (intro div_nat_eqI) simp_all
  then have here: "bit x m" by (simp add: bit_iff)
  have "\<not> bit x i" if "m < i" for i
  proof -
    from that have "(2::nat) ^ (m + 1) \<le> 2 ^ i" by (intro power_increasing) simp_all
    with hi have "unat x < 2 ^ i" by simp
    then show ?thesis by (simp add: bit_iff)
  qed
  with here show ?thesis by blast
qed

lemma leading_zeros_bounds:
  fixes x :: "64 word"
  assumes lo: "2 ^ (63 - d) \<le> unat x" and hi: "unat x < 2 ^ (64 - d)" and d: "d < 64"
  shows "leading_zeros x = d"
proof -
  let ?m = "63 - d"
  from d have e: "64 - d = ?m + 1" by simp
  from bit_from_bounds [OF lo hi [unfolded e]]
  have here: "bit x ?m" and above: "\<forall>i > ?m. \<not> bit x i" by simp_all
  have "[0..<?m + (64 - ?m)] = [0..<?m] @ [?m..<?m + (64 - ?m)]"
    by (rule upt_add_eq_append) simp
  moreover from d have "?m + (64 - ?m) = 64" by simp
  moreover from d have "[?m..<64] = ?m # [Suc ?m..<64]"
    by (intro upt_conv_Cons) simp
  ultimately have "[0..<64] = [0..<?m] @ ?m # [Suc ?m..<64]" by simp
  then have "rev [0..<64] = rev [Suc ?m..<64] @ ?m # rev [0..<?m]" by simp
  moreover have "takeWhile (\<lambda>i. \<not> bit x i) (rev [Suc ?m..<64] @ ?m # rev [0..<?m])
      = rev [Suc ?m..<64]"
  proof -
    have "takeWhile (\<lambda>i. \<not> bit x i) (rev [Suc ?m..<64] @ ?m # rev [0..<?m])
        = rev [Suc ?m..<64] @ takeWhile (\<lambda>i. \<not> bit x i) (?m # rev [0..<?m])"
      by (rule takeWhile_append2) (use above in auto)
    with here show ?thesis by simp
  qed
  ultimately have "leading_zeros x = length (rev [Suc ?m..<64])"
    by (simp only: leading_zeros_def)
  with d show ?thesis by simp
qed

lemma countLeadingZeros_correct:
  fixes x :: "64 word"
  assumes "x \<noteq> 0"
  shows "countLeadingZeros x = int (leading_zeros x) \<and> leading_zeros x < 64"
proof -
  from leading_zeros_bounds_ex [OF assms]
  obtain d where d: "d < 64" and lo: "2 ^ (63 - d) \<le> unat x" and hi: "unat x < 2 ^ (64 - d)"
    by blast
  from countLeadingZeros_bounds [OF lo hi d] leading_zeros_bounds [OF lo hi d] d
  show ?thesis by simp
qed

subsection \<open>HyperLogLog: Add\<close>

lemma hll_index_top_bits:
  fixes p :: "8 word"
  assumes "hll_precision hll = p" and "4 \<le> p" and "p \<le> 16"
  shows "unat (hll_index hll hash) = unat hash div 2 ^ (64 - unat p)
       \<and> unat (hll_index hll hash) < 2 ^ unat p"
proof -
  from precision_cases [OF assms(2,3)] have p: "4 \<le> unat p" "unat p \<le> 16" by simp_all
  then have sub: "unat ((64 :: 8 word) - p) = 64 - unat p"
    by (simp add: unat_sub_if')
  have idx: "unat (hll_index hll hash) = unat hash div 2 ^ (64 - unat p)"
    by (simp only: hll_index_def assms(1) sub unat_drop_bit_eq) (simp add: drop_bit_eq_div)
  have "unat hash < 2 ^ 64" using unsigned_less [of hash] by simp
  also from p have "(2::nat) ^ 64 = 2 ^ unat p * 2 ^ (64 - unat p)"
    by (simp flip: power_add)
  finally have "unat hash div 2 ^ (64 - unat p) < 2 ^ unat p"
    by (simp add: less_mult_imp_div_less)
  with idx show ?thesis by simp
qed

lemma hll_rank_position:
  assumes "push_bit (unat (hll_precision hll)) hash \<noteq> 0"
  shows "unat (hll_rank hll hash)
           = leading_one_position (push_bit (unat (hll_precision hll)) hash)"
proof -
  let ?w = "push_bit (unat (hll_precision hll)) hash"
  from countLeadingZeros_correct [OF assms]
  have clz: "countLeadingZeros ?w = int (leading_zeros ?w)" and lt: "leading_zeros ?w < 64"
    by simp_all
  have "hll_rank hll hash = word_of_nat (Suc (leading_zeros ?w))"
    using assms by (simp add: hll_rank_def Let_def clz add.commute)
  moreover from lt have "unat (word_of_nat (Suc (leading_zeros ?w)) :: 8 word) = Suc (leading_zeros ?w)"
    by (simp only: unat_of_nat) simp
  ultimately show ?thesis by (simp add: leading_one_position_def)
qed

lemma HLL_Add_spec:
  fixes p :: "8 word"
  assumes "hll_precision hll = p" and "4 \<le> p" and "p \<le> 16"
    and "length (hll_buckets hll) = 2 ^ unat p"
  shows "\<exists>v. HLL_Add hll data =
               Inr (hll\<lparr>hll_buckets := (hll_buckets hll)
                      [unat (hashBytes data) div 2 ^ (64 - unat p) :=
                         max (hll_buckets hll ! (unat (hashBytes data) div 2 ^ (64 - unat p))) v]\<rparr>)
           \<and> unat (hashBytes data) div 2 ^ (64 - unat p) < 2 ^ unat p
           \<and> (push_bit (unat p) (hashBytes data) \<noteq> 0 \<longrightarrow>
                 unat v = leading_one_position (push_bit (unat p) (hashBytes data))
                 \<and> unat v = leading_zeros (push_bit (unat p) (hashBytes data)) + 1)
           \<and> (push_bit (unat p) (hashBytes data) = 0 \<longrightarrow> v = 1)"
proof -
  let ?hash = "hashBytes data"
  let ?idx = "unat ?hash div 2 ^ (64 - unat p)"
  let ?v = "hll_rank hll ?hash"
  from hll_index_top_bits [OF assms(1-3), of ?hash]
  have idx: "unat (hll_index hll ?hash) = ?idx" and lt: "?idx < 2 ^ unat p" by simp_all
  from lt assms(4) have inr: "?idx < length (hll_buckets hll)" by simp
  have add: "HLL_Add hll data =
      Inr (hll\<lparr>hll_buckets := (hll_buckets hll)[?idx := max (hll_buckets hll ! ?idx) ?v]\<rparr>)"
  proof (cases "?v > hll_buckets hll ! ?idx")
    case True
    then have "max (hll_buckets hll ! ?idx) ?v = ?v" by (intro max_absorb2) simp
    with True inr show ?thesis by (simp add: HLL_Add_def Let_def idx)
  next
    case False
    then have "max (hll_buckets hll ! ?idx) ?v = hll_buckets hll ! ?idx"
      by (intro max_absorb1) simp
    with False inr show ?thesis by (simp add: HLL_Add_def Let_def idx)
  qed
  have pos: "unat ?v = leading_one_position (push_bit (unat p) ?hash)
      \<and> unat ?v = leading_zeros (push_bit (unat p) ?hash) + 1"
    if "push_bit (unat p) ?hash \<noteq> 0"
    using that hll_rank_position [of hll ?hash]
    by (simp add: assms(1) leading_one_position_def)
  have zero: "?v = 1" if "push_bit (unat p) ?hash = 0"
    using that by (simp add: hll_rank_def assms(1))
  from add lt pos zero show ?thesis by blast
qed


lemma hash_example: "hashBytes (bytes_of ''c/n/a/m'') = 10549591676979320671"
  by code_simp

text \<open>
  C4 as the code has it. On a sketch of precision \<open>p\<close> in \<open>[4, 16]\<close> with its \<open>2 ^ p\<close>
  registers, \<open>Add\<close> returns. The register it selects is the number made of the top
  \<open>p\<close> bits of the 64-bit hash, and the register becomes the maximum of its old value
  and a value \<open>v\<close>: when the remaining bits (the hash shifted left by \<open>p\<close>) are not all
  zero, \<open>v\<close> is the 1-based position of their leading one bit, that is the number of
  leading zeros plus one and not one more than the position. Nothing is stated about
  \<open>v\<close> when the remaining bits are all zero.
\<close>

theorem HLL_Add_register_and_rank:
  fixes p :: "8 word"
  assumes "hll_precision hll = p" and "4 \<le> p" and "p \<le> 16"
    and "length (hll_buckets hll) = 2 ^ unat p"
  shows "\<exists>v. HLL_Add hll data =
               Inr (hll\<lparr>hll_buckets := (hll_buckets hll)
                      [unat (hashBytes data) div 2 ^ (64 - unat p) :=
                         max (hll_buckets hll ! (unat (hashBytes data) div 2 ^ (64 - unat p))) v]\<rparr>)
           \<and> unat (hashBytes data) div 2 ^ (64 - unat p) < 2 ^ unat p
           \<and> (push_bit (unat p) (hashBytes data) \<noteq> 0 \<longrightarrow>
                 unat v = leading_one_position (push_bit (unat p) (hashBytes data))
                 \<and> unat v = leading_zeros (push_bit (unat p) (hashBytes data)) + 1)"
  using HLL_Add_spec [OF assms, of data] by blast

theorem HLL_Add_register_and_rank_witness:
  "hll_precision (NewHyperLogLog 4) = 4 \<and> (4 :: 8 word) \<le> 4 \<and> (4 :: 8 word) \<le> 16
   \<and> length (hll_buckets (NewHyperLogLog 4)) = 2 ^ unat (4 :: 8 word)
   \<and> push_bit (unat (4 :: 8 word)) (hashBytes (bytes_of ''c/n/a/m'')) \<noteq> 0
   \<and> (\<exists>v. HLL_Add (NewHyperLogLog 4) (bytes_of ''c/n/a/m'') =
             Inr ((NewHyperLogLog 4)\<lparr>hll_buckets := (hll_buckets (NewHyperLogLog 4))
                    [9 := max (hll_buckets (NewHyperLogLog 4) ! 9) v]\<rparr>)
          \<and> unat v = 3)"
proof -
  have h1: "hll_precision (NewHyperLogLog 4) = 4" by (simp add: NewHyperLogLog_def)
  have h2: "(4 :: 8 word) \<le> 4" and h3: "(4 :: 8 word) \<le> 16" by simp_all
  have h4: "length (hll_buckets (NewHyperLogLog 4)) = 2 ^ unat (4 :: 8 word)"
    by (simp add: NewHyperLogLog_def)
  have nz: "push_bit (unat (4 :: 8 word)) (hashBytes (bytes_of ''c/n/a/m'')) \<noteq> 0"
    by (simp add: hash_example)
  have idx: "unat (hashBytes (bytes_of ''c/n/a/m'')) div 2 ^ (64 - unat (4 :: 8 word)) = 9"
    by (simp add: hash_example)
  have "leading_one_position (push_bit 4 (10549591676979320671 :: 64 word)) = 3"
    by code_simp
  then have pos: "leading_one_position
      (push_bit (unat (4 :: 8 word)) (hashBytes (bytes_of ''c/n/a/m''))) = 3"
    by (simp add: hash_example)
  from HLL_Add_register_and_rank [OF h1 h2 h3 h4, of "bytes_of ''c/n/a/m''"] nz
  have "\<exists>v. HLL_Add (NewHyperLogLog 4) (bytes_of ''c/n/a/m'') =
             Inr ((NewHyperLogLog 4)\<lparr>hll_buckets := (hll_buckets (NewHyperLogLog 4))
                    [9 := max (hll_buckets (NewHyperLogLog 4) ! 9) v]\<rparr>)
          \<and> unat v = 3"
    unfolding idx pos by blast
  with h1 h2 h3 h4 nz show ?thesis by blast
qed

text \<open>
  The claim C4 as stated fails. For the key \<open>c/n/a/m\<close> and precision 4 the remaining
  bits have their leading one bit at the 1-based position 3, and the register 9 that
  the top 4 bits select becomes 3, not \<open>1 + 3\<close>.
\<close>

theorem HLL_Add_rank_counterexample:
  "map_sum id hll_buckets (HLL_Add (NewHyperLogLog 4) (bytes_of ''c/n/a/m''))
     = Inr [0, 0, 0, 0, 0, 0, 0, 0, 0, 3, 0, 0, 0, 0, 0, 0]
   \<and> unat (hashBytes (bytes_of ''c/n/a/m'')) div 2 ^ (64 - 4) = 9
   \<and> leading_one_position (push_bit 4 (hashBytes (bytes_of ''c/n/a/m''))) = 3
   \<and> (3 :: 8 word) \<noteq> 1 + 3"
proof -
  have "map_sum id hll_buckets (HLL_Add (NewHyperLogLog 4) (bytes_of ''c/n/a/m''))
     = Inr [0, 0, 0, 0, 0, 0, 0, 0, 0, 3, 0, 0, 0, 0, 0, 0]"
    by code_simp
  moreover have "unat (hashBytes (bytes_of ''c/n/a/m'')) div 2 ^ (64 - 4) = 9"
    by (simp add: hash_example)
  moreover have "leading_one_position (push_bit 4 (10549591676979320671 :: 64 word)) = 3"
    by code_simp
  ultimately show ?thesis by (simp add: hash_example)
qed

text \<open>
  The remaining case, which is no part of the statement above. When all remaining bits
  are zero, \<open>Add\<close> keeps the initial value 1 of \<open>leadingZeros\<close>: the rarest pattern gets
  the lowest rank, below the rank \<open>64 - p\<close> of a rest whose last bit alone is set, and
  \<open>countLeadingZeros\<close>, which answers 64 for the word 0, is not asked. The key
  \<open>c/n/_UmZSOgl/m2\<close> reaches this case at precision 14.
\<close>

lemma hll_rank_zero_rest:
  assumes "push_bit (unat (hll_precision hll)) hash = 0"
  shows "hll_rank hll hash = 1"
  using assms by (simp add: hll_rank_def)

lemma hash_zero_rest_example:
  "hashBytes (bytes_of ''c/n/_UmZSOgl/m2'') = 0x48cc000000000000"
  by code_simp

lemma hll_rank_zero_rest_example:
  "push_bit 14 (hashBytes (bytes_of ''c/n/_UmZSOgl/m2'')) = 0
   \<and> hll_rank (NewHyperLogLog 14) (hashBytes (bytes_of ''c/n/_UmZSOgl/m2'')) = 1
   \<and> countLeadingZeros 0 = 64
   \<and> hll_rank (NewHyperLogLog 14) 1 = 50"
proof -
  have p: "hll_precision (NewHyperLogLog 14) = 14" by (simp add: NewHyperLogLog_def)
  have z: "push_bit 14 (hashBytes (bytes_of ''c/n/_UmZSOgl/m2'')) = 0"
    by (simp add: hash_zero_rest_example)
  have r: "hll_rank (NewHyperLogLog 14) (hashBytes (bytes_of ''c/n/_UmZSOgl/m2'')) = 1"
    by (rule hll_rank_zero_rest) (simp add: p z)
  have c: "countLeadingZeros 0 = 64" by (simp add: countLeadingZeros_def)
  have "countLeadingZeros (push_bit 14 1) = 49" by code_simp
  then have l: "hll_rank (NewHyperLogLog 14) 1 = 50" by (simp add: hll_rank_def p)
  from z r c l show ?thesis by simp
qed

subsection \<open>Adaptive sampler\<close>

text \<open>
  C10. When the adaptive sampler has processed no record, \<open>GetEffectiveSamplingRate\<close>
  returns the configured base rate; otherwise it returns the ratio of the two
  counters, whose divisor is then not zero.
\<close>

theorem GetEffectiveSamplingRate_no_division_by_zero:
  "(as_totalProcessed as = 0 \<longrightarrow> GetEffectiveSamplingRate as = BaseRate (as_config as))
   \<and> (as_totalProcessed as \<noteq> 0 \<longrightarrow>
        GetEffectiveSamplingRate as
          = real (unat (as_totalSampled as)) / real (unat (as_totalProcessed as))
        \<and> real (unat (as_totalProcessed as)) \<noteq> 0)"
proof -
  have "real (unat (as_totalProcessed as)) \<noteq> 0" if "as_totalProcessed as \<noteq> 0"
  proof -
    from that have "0 < unat (as_totalProcessed as)" by (simp add: unat_gt_0)
    then show ?thesis by (simp only: of_nat_eq_0_iff)
  qed
  then show ?thesis
    by (cases "as_totalProcessed as = 0") (simp_all add: GetEffectiveSamplingRate_def)
qed

theorem GetEffectiveSamplingRate_no_division_by_zero_witness:
  "as_totalProcessed (NewAdaptiveSampler example_sampling) = 0
   \<and> GetEffectiveSamplingRate (NewAdaptiveSampler example_sampling) = 1
   \<and> as_totalProcessed
        ((NewAdaptiveSampler example_sampling)\<lparr>as_totalProcessed := 4, as_totalSampled := 1\<rparr>) \<noteq> 0
   \<and> GetEffectiveSamplingRate
        ((NewAdaptiveSampler example_sampling)\<lparr>as_totalProcessed := 4, as_totalSampled := 1\<rparr>)
       = 1 / 4"
  using GetEffectiveSamplingRate_no_division_by_zero [of "NewAdaptiveSampler example_sampling"]
    GetEffectiveSamplingRate_no_division_by_zero
      [of "(NewAdaptiveSampler example_sampling)\<lparr>as_totalProcessed := 4, as_totalSampled := 1\<rparr>"]
  by (simp add: NewAdaptiveSampler_def example_sampling_def)

subsection \<open>Percentile queries\<close>

text \<open>
  The test of the range in \<open>executePercentile\<close>. A percentile request whose query text
  parses to a value below 0 or above 100 is answered by the invalid-percentile error
  whenever some sample matches its filters; when no sample matches, the answer is
  instead, whatever the query text, a result with sample size 0, not approximate, with
  a nil payload, and not an error.
\<close>

lemma executePercentile_range_test:
  "(getFilteredSamples qe request \<noteq> []
      \<and> (f64_less (extractPercentileValue parseFloat (req_Query request)) 0
           \<or> f64_greater (extractPercentileValue parseFloat (req_Query request)) 100)
    \<longrightarrow> executePercentile parseFloat qe request = Inl ErrInvalidPercentile)
   \<and> (getFilteredSamples qe request = []
    \<longrightarrow> executePercentile parseFloat qe request =
          Inr \<lparr>res_ID = req_ID request, res_Query = req_Query request,
               res_Result = NilResult, res_Error = None, res_Confidence = None,
               res_SampleSize = 0, res_ProcessingTime = 0, res_IsApproximate = False,
               res_Timestamp = 0\<rparr>)"
  by (simp add: executePercentile_def Let_def)

lemma executePercentile_range_test_example:
  "getFilteredSamples example_samples (example_request ''PERCENTILE(150)'' Map.empty) \<noteq> []
   \<and> f64_greater (extractPercentileValue example_parseFloat
         (req_Query (example_request ''PERCENTILE(150)'' Map.empty))) 100
   \<and> executePercentile example_parseFloat example_samples
         (example_request ''PERCENTILE(150)'' Map.empty) = Inl ErrInvalidPercentile
   \<and> getFilteredSamples example_samples
         (example_request ''PERCENTILE(150)'' [''namespace'' \<mapsto> ''x'']) = []
   \<and> executePercentile example_parseFloat example_samples
         (example_request ''PERCENTILE(150)'' [''namespace'' \<mapsto> ''x'']) =
       Inr \<lparr>res_ID = ''q'', res_Query = ''PERCENTILE(150)'',
            res_Result = NilResult, res_Error = None, res_Confidence = None,
            res_SampleSize = 0, res_ProcessingTime = 0, res_IsApproximate = False,
            res_Timestamp = 0\<rparr>"
proof -
  have some: "getFilteredSamples example_samples (example_request ''PERCENTILE(150)'' Map.empty)
      \<noteq> []"
    by (simp add: getFilteredSamples_def example_samples_def example_request_def
        matchesFilters_def filter_ok_def example_metric_def)
  have parsed: "extractPercentileValue example_parseFloat
      (req_Query (example_request ''PERCENTILE(150)'' Map.empty)) = Finite 150"
    by (simp add: extractPercentileValue_def strings_Contains_def Let_def
        example_request_def example_parseFloat_def)
  have none: "getFilteredSamples example_samples
      (example_request ''PERCENTILE(150)'' [''namespace'' \<mapsto> ''x'']) = []"
    by (simp add: getFilteredSamples_def example_samples_def example_request_def
        matchesFilters_def filter_ok_def example_metric_def)
  from executePercentile_range_test
         [of example_samples "example_request ''PERCENTILE(150)'' Map.empty" example_parseFloat]
       executePercentile_range_test
         [of example_samples "example_request ''PERCENTILE(150)'' [''namespace'' \<mapsto> ''x'']"
             example_parseFloat]
       some parsed none
  show ?thesis by (simp add: example_request_def)
qed

text \<open>
  A NaN is neither below 0 nor above 100 for the comparisons of \<open>float64\<close>, so it passes
  the test of the range.
\<close>

lemma executePercentile_NaN:
  assumes "getFilteredSamples qe request \<noteq> []"
    and "extractPercentileValue parseFloat (req_Query request) = NaN"
  shows "executePercentile parseFloat qe request = Inl ImplementationDependent"
  using assms by (simp add: executePercentile_def Let_def)

text \<open>
  C7 fails on the code. The query text \<open>PERCENTILE(NaN)\<close> parses to NaN
  (\<open>strconv.ParseFloat\<close> accepts the text \<open>NaN\<close>), which is no value of \<open>[0, 100]\<close>. With a
  sample that matches the filters, \<open>executePercentile\<close> does not return the
  invalid-percentile error: the value passes \<open>percentileValue < 0 || percentileValue > 100\<close>
  and the index computed from it is converted to \<open>int\<close>.
\<close>

theorem executePercentile_NaN_failing_input:
  "getFilteredSamples example_samples (example_request ''PERCENTILE(NaN)'' Map.empty) \<noteq> []
   \<and> extractPercentileValue example_parseFloat ''PERCENTILE(NaN)'' = NaN
   \<and> \<not> f64_less NaN 0 \<and> \<not> f64_greater NaN 100
   \<and> executePercentile example_parseFloat example_samples
         (example_request ''PERCENTILE(NaN)'' Map.empty) = Inl ImplementationDependent
   \<and> executePercentile example_parseFloat example_samples
         (example_request ''PERCENTILE(NaN)'' Map.empty) \<noteq> Inl ErrInvalidPercentile"
proof -
  have some: "getFilteredSamples example_samples (example_request ''PERCENTILE(NaN)'' Map.empty)
      \<noteq> []"
    by (simp add: getFilteredSamples_def example_samples_def example_request_def
        matchesFilters_def filter_ok_def example_metric_def)
  have parsed: "extractPercentileValue example_parseFloat ''PERCENTILE(NaN)'' = NaN"
    by (simp add: extractPercentileValue_def strings_Contains_def Let_def
        example_parseFloat_def)
  have "executePercentile example_parseFloat example_samples
         (example_request ''PERCENTILE(NaN)'' Map.empty) = Inl ImplementationDependent"
    using some parsed by (intro executePercentile_NaN) (simp_all add: example_request_def)
  with some parsed show ?thesis by simp
qed

subsection \<open>Ingest\<close>

lemma RS_Add_sampled:
  assumes "RS_Add rs metric r = Inr (rs', Some s)"
  shows "s = metric"
  using assms by (auto simp add: RS_Add_def Let_def split: if_splits sum.splits)

lemma calculateSamplingRate_counters:
  "calculateSamplingRate (as\<lparr>as_totalProcessed := n\<rparr>) metric = calculateSamplingRate as metric"
proof -
  have sel: "as_config (as\<lparr>as_totalProcessed := n\<rparr>) = as_config as"
    "as_anomalyDetector (as\<lparr>as_totalProcessed := n\<rparr>) = as_anomalyDetector as"
    "as_statistics (as\<lparr>as_totalProcessed := n\<rparr>) = as_statistics as"
    by simp_all
  show ?thesis unfolding calculateSamplingRate_def sel ..
qed

lemma Sample_result:
  assumes "Sample as metric u r = Inr (as', sampled, b)"
  shows "b = (sampled \<noteq> None)
       \<and> (sampled \<noteq> None \<longrightarrow> sampled = Some metric \<and> u < calculateSamplingRate as metric)"
  using assms
  by (auto simp add: Sample_def ShouldSample_def Let_def calculateSamplingRate_counters
      split: if_splits sum.splits prod.splits dest: RS_Add_sampled)

lemma HLL_Add_ready:
  assumes "4 \<le> hll_precision hll" and "hll_precision hll \<le> 16"
    and "length (hll_buckets hll) = 2 ^ unat (hll_precision hll)"
  shows "\<exists>hll'. HLL_Add hll data = Inr hll' \<and> hll_precision hll' = hll_precision hll
           \<and> length (hll_buckets hll') = length (hll_buckets hll)"
proof -
  from HLL_Add_spec [OF refl assms, of data]
  obtain v where "HLL_Add hll data =
      Inr (hll\<lparr>hll_buckets := (hll_buckets hll)
             [unat (hashBytes data) div 2 ^ (64 - unat (hll_precision hll)) :=
                max (hll_buckets hll ! (unat (hashBytes data) div 2 ^ (64 - unat (hll_precision hll)))) v]\<rparr>)"
    by blast
  then show ?thesis by simp
qed

lemma updateDataStructures_ready:
  assumes "sketches_ready qe"
  shows "\<exists>qe'. updateDataStructures qe metric = Inr qe' \<and> sketches_ready qe'
           \<and> qe_samples qe' = qe_samples qe \<and> qe_sampler qe' = qe_sampler qe
           \<and> qe_stats qe' = qe_stats qe"
proof -
  let ?key = "bytes_of (getMetricKey metric)"
  from assms have h: "4 \<le> hll_precision (qe_hll qe)" "hll_precision (qe_hll qe) \<le> 16"
      "length (hll_buckets (qe_hll qe)) = 2 ^ unat (hll_precision (qe_hll qe))"
    and c: "cms_shape (qe_cms qe)" "cms_width (qe_cms qe) \<noteq> 0"
    and b: "bf_size (qe_bloom qe) \<noteq> 0" "length (bf_bits (qe_bloom qe)) = unat (bf_size (qe_bloom qe))"
    by (simp_all add: sketches_ready_def)
  from HLL_Add_ready [OF h, of ?key]
  obtain hll where hll: "HLL_Add (qe_hll qe) ?key = Inr hll"
    and hp: "hll_precision hll = hll_precision (qe_hll qe)"
    and hl: "length (hll_buckets hll) = length (hll_buckets (qe_hll qe))"
    by blast
  from CMS_Update_spec [OF c, of ?key 1]
  obtain cms where cms: "CMS_Update (qe_cms qe) ?key 1 = Inr cms"
    and cs: "cms_shape cms" and cp: "cms_same_params (qe_cms qe) cms"
    by blast
  from BF_Adds_total [OF b, of "[?key]"]
  obtain bloom where bloom: "BF_Add (qe_bloom qe) ?key = Inr bloom"
    by (auto split: sum.splits)
  from BF_Add_result [OF bloom] b
  have bs: "bf_size bloom \<noteq> 0" "length (bf_bits bloom) = unat (bf_size bloom)" by simp_all
  let ?qe' = "qe\<lparr>qe_hll := hll, qe_cms := cms, qe_bloom := bloom\<rparr>"
  have "updateDataStructures qe metric = Inr ?qe'"
    using hll cms bloom by (simp add: updateDataStructures_def Let_def)
  moreover have "sketches_ready ?qe'"
    using h hp hl cs cp c(2) bs by (simp add: sketches_ready_def cms_same_params_def)
  ultimately show ?thesis by auto
qed


lemmas sampler_defs = example_engine_def NewQueryEngine_def example_sampling_def NewAdaptiveSampler_def
  NewAnomalyDetector_def setDefaultThresholds_def example_metric_def
  Sample_def ShouldSample_def calculateSamplingRate_def AD_IsAnomaly_def IsAnomaly_def
  getStratum_def updateStatistics_def NewWindowStats_def WS_Add_def cleanup_def GetVariance_def
  getOrCreateReservoir_def NewReservoirSampler_def RS_Add_def Intn_def Let_def
  f64_0_8_def f64_0_85_def f64_0_9_def f64_0_001_def

lemma Sample_example_a:
  "Sample (qe_sampler example_engine) (example_metric ''a'') 0 0 =
     Inr (example_sampler_1, Some (example_metric ''a''), True)"
  by (simp add: sampler_defs example_sampler_1_def)

lemma HLL_Add_buckets_only:
  assumes "HLL_Add hll data = Inr hll'"
  shows "hll' = hll\<lparr>hll_buckets := hll_buckets hll'\<rparr>"
  using assms by (auto simp add: HLL_Add_def Let_def split: if_splits)

lemma HLL_Add_example_a:
  "HLL_Add (NewHyperLogLog 4) (bytes_of ''c/n/a/m'') =
     Inr ((NewHyperLogLog 4)\<lparr>hll_buckets := [0, 0, 0, 0, 0, 0, 0, 0, 0, 3, 0, 0, 0, 0, 0, 0]\<rparr>)"
proof -
  have b: "map_sum id hll_buckets (HLL_Add (NewHyperLogLog 4) (bytes_of ''c/n/a/m''))
      = Inr [0, 0, 0, 0, 0, 0, 0, 0, 0, 3, 0, 0, 0, 0, 0, 0]"
    by code_simp
  then obtain hll' where r: "HLL_Add (NewHyperLogLog 4) (bytes_of ''c/n/a/m'') = Inr hll'"
    and "hll_buckets hll' = [0, 0, 0, 0, 0, 0, 0, 0, 0, 3, 0, 0, 0, 0, 0, 0]"
    by (cases "HLL_Add (NewHyperLogLog 4) (bytes_of ''c/n/a/m'')") auto
  with HLL_Add_buckets_only [OF r] show ?thesis by simp
qed

lemma CMS_Update_example_a:
  "CMS_Update (NewCountMinSketch 2 1) (bytes_of ''c/n/a/m'') 1 =
     Inr \<lparr>cms_width = 2, cms_depth = 1, cms_count = [[1, 0]], cms_hashA = [1],
          cms_hashB = [7], cms_total = 1\<rparr>"
  by code_simp

lemma BF_Add_example_a:
  "BF_Add (NewBloomFilter 8 1) (bytes_of ''c/n/a/m'') =
     Inr \<lparr>bf_bits = [False, False, False, False, False, False, False, True],
          bf_size = 8, bf_numHashes = 1, bf_numItems = 1\<rparr>"
  by code_simp

lemma getMetricKey_example: "getMetricKey (example_metric pod) = ''c/n/'' @ pod @ ''/m''"
  by (simp add: getMetricKey_def example_metric_def)

lemma ProcessMetric_example_a:
  "ProcessMetric example_engine (example_metric ''a'') 0 0 = Inr example_engine_1"
proof -
  have sk: "qe_hll example_engine = NewHyperLogLog 4"
    "qe_cms example_engine = NewCountMinSketch 2 1"
    "qe_bloom example_engine = NewBloomFilter 8 1"
    "qe_samples example_engine = []"
    by (simp_all add: example_engine_def NewQueryEngine_def)
  have upd: "updateDataStructures (example_engine\<lparr>qe_sampler := example_sampler_1\<rparr>)
      (example_metric ''a'') =
      Inr (example_engine\<lparr>qe_sampler := example_sampler_1,
            qe_hll := (NewHyperLogLog 4)
                 \<lparr>hll_buckets := [0, 0, 0, 0, 0, 0, 0, 0, 0, 3, 0, 0, 0, 0, 0, 0]\<rparr>,
            qe_cms := \<lparr>cms_width = 2, cms_depth = 1, cms_count = [[1, 0]], cms_hashA = [1],
                cms_hashB = [7], cms_total = 1\<rparr>,
            qe_bloom := \<lparr>bf_bits = [False, False, False, False, False, False, False, True],
                  bf_size = 8, bf_numHashes = 1, bf_numItems = 1\<rparr>\<rparr>)"
    by (simp add: updateDataStructures_def Let_def sk getMetricKey_example
        HLL_Add_example_a CMS_Update_example_a BF_Add_example_a)
  show ?thesis
    by (simp add: ProcessMetric_def Sample_example_a upd Let_def getMetricKey_example
        samples_of_def sk count_sample_def example_engine_1_def)
      (simp add: example_engine_def NewQueryEngine_def)
qed

lemma Sample_pointer_result:
  assumes "Sample_pointer as metric u r = Inr sampled"
  shows "\<exists>as'. Sample as metric u r = Inr (as', sampled, sampled \<noteq> None)"
proof -
  from assms obtain as' b where s: "Sample as metric u r = Inr (as', sampled, b)"
    by (auto simp add: Sample_pointer_def split: sum.splits)
  from Sample_result [OF s] s show ?thesis by auto
qed

lemma Sample_pointer_example_a:
  "Sample_pointer (qe_sampler example_engine) (example_metric ''a'') 0 0
     = Inr (Some (example_metric ''a''))"
  by (simp add: Sample_pointer_def Sample_example_a)

lemma rate_example_b:
  "calculateSamplingRate (qe_sampler example_engine_1) (example_metric ''b'') = 1"
  by (simp add: example_engine_1_def example_sampler_1_def sampler_defs)

lemma Sample_pointer_example_b:
  "Sample_pointer (qe_sampler example_engine_1) (example_metric ''b'') 0 1 = Inr None"
  by (simp add: Sample_pointer_def example_engine_1_def example_sampler_1_def sampler_defs)

lemma sketches_ready_example: "sketches_ready example_engine"
  by (simp add: sketches_ready_def example_engine_def NewQueryEngine_def NewHyperLogLog_def
      NewCountMinSketch_def NewBloomFilter_def cms_shape_def)

text \<open>
  C1 as the code has it. \<open>Sample\<close> returns a record only when the draw of the
  sampler is below the computed rate and the reservoir of the stratum keeps the
  record. For such a record \<open>ProcessMetric\<close> adds the derived key
  \<open>cluster/namespace/pod/metric\<close> to the cardinality, the frequency (by 1) and the
  membership sketch, and it returns when the sketches are ready. For a record that
  \<open>Sample\<close> does not return, be it dropped by the draw or let go by the reservoir,
  the three sketches stay as they are.
\<close>

theorem ProcessMetric_updates_sketches:
  "(Sample_pointer (qe_sampler qe) metric u r = Inr (Some s)
      \<and> ProcessMetric qe metric u r = Inr qe'
    \<longrightarrow> s = metric \<and> u < calculateSamplingRate (qe_sampler qe) metric
        \<and> HLL_Add (qe_hll qe) (bytes_of (getMetricKey metric)) = Inr (qe_hll qe')
        \<and> CMS_Update (qe_cms qe) (bytes_of (getMetricKey metric)) 1 = Inr (qe_cms qe')
        \<and> BF_Add (qe_bloom qe) (bytes_of (getMetricKey metric)) = Inr (qe_bloom qe'))
   \<and> (Sample_pointer (qe_sampler qe) metric u r = Inr (Some s) \<and> sketches_ready qe
    \<longrightarrow> (\<exists>qe'. ProcessMetric qe metric u r = Inr qe' \<and> sketches_ready qe'))
   \<and> (Sample_pointer (qe_sampler qe) metric u r = Inr None
    \<longrightarrow> (\<exists>qe'. ProcessMetric qe metric u r = Inr qe'
           \<and> qe_hll qe' = qe_hll qe \<and> qe_cms qe' = qe_cms qe \<and> qe_bloom qe' = qe_bloom qe))"
proof -
  have A: "s = metric \<and> u < calculateSamplingRate (qe_sampler qe) metric
        \<and> HLL_Add (qe_hll qe) (bytes_of (getMetricKey metric)) = Inr (qe_hll qe')
        \<and> CMS_Update (qe_cms qe) (bytes_of (getMetricKey metric)) 1 = Inr (qe_cms qe')
        \<and> BF_Add (qe_bloom qe) (bytes_of (getMetricKey metric)) = Inr (qe_bloom qe')"
    if a: "Sample_pointer (qe_sampler qe) metric u r = Inr (Some s)
      \<and> ProcessMetric qe metric u r = Inr qe'"
  proof -
  from a Sample_pointer_result [of "qe_sampler qe" metric u r "Some s"]
  obtain sampler where sm: "Sample (qe_sampler qe) metric u r = Inr (sampler, Some s, True)"
    by auto
  from Sample_result [OF sm]
  have s: "s = metric" and u: "u < calculateSamplingRate (qe_sampler qe) metric"
    by simp_all
  from a sm s obtain qe1 where
    upd: "updateDataStructures (qe\<lparr>qe_sampler := sampler\<rparr>) metric = Inr qe1"
    and sk: "qe_hll qe' = qe_hll qe1" "qe_cms qe' = qe_cms qe1" "qe_bloom qe' = qe_bloom qe1"
    by (auto simp add: ProcessMetric_def Let_def count_sample_def split: sum.splits)
  from upd sk have h: "HLL_Add (qe_hll qe) (bytes_of (getMetricKey metric)) = Inr (qe_hll qe')"
    by (auto simp add: updateDataStructures_def Let_def split: sum.splits)
  from upd sk have c: "CMS_Update (qe_cms qe) (bytes_of (getMetricKey metric)) 1 = Inr (qe_cms qe')"
    by (auto simp add: updateDataStructures_def Let_def split: sum.splits)
  from upd sk have b: "BF_Add (qe_bloom qe) (bytes_of (getMetricKey metric)) = Inr (qe_bloom qe')"
    by (auto simp add: updateDataStructures_def Let_def split: sum.splits)
  from s u h c b show ?thesis by simp
  qed
  have B: "\<exists>qe'. ProcessMetric qe metric u r = Inr qe' \<and> sketches_ready qe'"
    if a: "Sample_pointer (qe_sampler qe) metric u r = Inr (Some s) \<and> sketches_ready qe"
  proof -
  from a Sample_pointer_result [of "qe_sampler qe" metric u r "Some s"]
  obtain sampler where sm: "Sample (qe_sampler qe) metric u r = Inr (sampler, Some s, True)"
    by auto
  from Sample_result [OF sm] have s: "s = metric" by simp
  from a have "sketches_ready (qe\<lparr>qe_sampler := sampler\<rparr>)" by (simp add: sketches_ready_def)
  from updateDataStructures_ready [OF this, of metric]
  obtain qe1 where upd: "updateDataStructures (qe\<lparr>qe_sampler := sampler\<rparr>) metric = Inr qe1"
    and ready: "sketches_ready qe1"
    by blast
  from sm s upd ready show ?thesis
    by (simp add: ProcessMetric_def Let_def count_sample_def sketches_ready_def)
  qed
  have C: "\<exists>qe'. ProcessMetric qe metric u r = Inr qe'
      \<and> qe_hll qe' = qe_hll qe \<and> qe_cms qe' = qe_cms qe \<and> qe_bloom qe' = qe_bloom qe"
    if a: "Sample_pointer (qe_sampler qe) metric u r = Inr None"
  proof -
    from Sample_pointer_result [OF a]
    obtain sampler where "Sample (qe_sampler qe) metric u r = Inr (sampler, None, False)"
      by auto
    then show ?thesis by (simp add: ProcessMetric_def Let_def count_sample_def)
  qed
  from A B C show ?thesis by blast
qed

theorem ProcessMetric_updates_sketches_witness:
  "Sample_pointer (qe_sampler example_engine) (example_metric ''a'') 0 0
     = Inr (Some (example_metric ''a''))
   \<and> ProcessMetric example_engine (example_metric ''a'') 0 0 = Inr example_engine_1
   \<and> sketches_ready example_engine
   \<and> (0 :: real) < calculateSamplingRate (qe_sampler example_engine) (example_metric ''a'')
   \<and> HLL_Add (qe_hll example_engine) (bytes_of (getMetricKey (example_metric ''a'')))
       = Inr (qe_hll example_engine_1)
   \<and> CMS_Update (qe_cms example_engine) (bytes_of (getMetricKey (example_metric ''a''))) 1
       = Inr (qe_cms example_engine_1)
   \<and> BF_Add (qe_bloom example_engine) (bytes_of (getMetricKey (example_metric ''a'')))
       = Inr (qe_bloom example_engine_1)
   \<and> sketches_ready example_engine_1
   \<and> Sample_pointer (qe_sampler example_engine_1) (example_metric ''b'') 0 1 = Inr None
   \<and> (\<exists>qe'. ProcessMetric example_engine_1 (example_metric ''b'') 0 1 = Inr qe'
          \<and> qe_hll qe' = qe_hll example_engine_1 \<and> qe_cms qe' = qe_cms example_engine_1
          \<and> qe_bloom qe' = qe_bloom example_engine_1)"
  using ProcessMetric_updates_sketches
          [of example_engine "example_metric ''a''" 0 0 "example_metric ''a''" example_engine_1]
        ProcessMetric_updates_sketches
          [of example_engine_1 "example_metric ''b''" 0 1]
        Sample_pointer_example_a ProcessMetric_example_a sketches_ready_example
        Sample_pointer_example_b
  by simp

text \<open>
  The claim C1 as stated fails. The engine has ingested the record of pod \<open>a\<close>, which
  fills the reservoir of capacity 1 of its stratum. For the record of pod \<open>b\<close> of the
  same stratum the draw 0 of the sampler is below the rate 1, so that the sampler admits
  the record, but the reservoir draws the index 1 and lets the record go: \<open>Sample\<close>
  returns nil and the three sketches stay as they are, while an update with the key of
  the record would have changed the frequency sketch.
\<close>

theorem ProcessMetric_discarded_counterexample:
  "ProcessMetric example_engine (example_metric ''a'') 0 0 = Inr example_engine_1
   \<and> (0 :: real) < calculateSamplingRate (qe_sampler example_engine_1) (example_metric ''b'')
   \<and> Sample_pointer (qe_sampler example_engine_1) (example_metric ''b'') 0 1 = Inr None
   \<and> map_sum id qe_hll (ProcessMetric example_engine_1 (example_metric ''b'') 0 1)
       = Inr (qe_hll example_engine_1)
   \<and> map_sum id qe_cms (ProcessMetric example_engine_1 (example_metric ''b'') 0 1)
       = Inr (qe_cms example_engine_1)
   \<and> map_sum id qe_bloom (ProcessMetric example_engine_1 (example_metric ''b'') 0 1)
       = Inr (qe_bloom example_engine_1)
   \<and> CMS_Update (qe_cms example_engine_1) (bytes_of (getMetricKey (example_metric ''b''))) 1
       = Inr \<lparr>cms_width = 2, cms_depth = 1, cms_count = [[1, 1]], cms_hashA = [1],
              cms_hashB = [7], cms_total = 2\<rparr>
   \<and> qe_cms example_engine_1
       = \<lparr>cms_width = 2, cms_depth = 1, cms_count = [[1, 0]], cms_hashA = [1],
          cms_hashB = [7], cms_total = 1\<rparr>"
proof -
  from Sample_pointer_result [OF Sample_pointer_example_b]
  obtain sampler where s: "Sample (qe_sampler example_engine_1) (example_metric ''b'') 0 1
      = Inr (sampler, None, False)"
    by auto
  have pm: "ProcessMetric example_engine_1 (example_metric ''b'') 0 1
      = Inr (count_sample (example_engine_1\<lparr>qe_sampler := sampler\<rparr>))"
    using s by (simp add: ProcessMetric_def)
  have upd: "CMS_Update \<lparr>cms_width = 2, cms_depth = 1, cms_count = [[1, 0]], cms_hashA = [1],
          cms_hashB = [7], cms_total = 1\<rparr> (bytes_of ''c/n/b/m'') 1
       = Inr \<lparr>cms_width = 2, cms_depth = 1, cms_count = [[1, 1]], cms_hashA = [1],
              cms_hashB = [7], cms_total = 2\<rparr>"
    by code_simp
  have cms1: "qe_cms example_engine_1
       = \<lparr>cms_width = 2, cms_depth = 1, cms_count = [[1, 0]], cms_hashA = [1],
          cms_hashB = [7], cms_total = 1\<rparr>"
    by (simp add: example_engine_1_def)
  from ProcessMetric_example_a rate_example_b Sample_pointer_example_b pm upd cms1
  show ?thesis by (simp add: count_sample_def getMetricKey_example)
qed

subsection \<open>Invariants of the sampler and the engine\<close>

text \<open>
  Every reservoir of the adaptive sampler has the configured capacity and holds at most
  that many samples; the sketches of an engine built with a frequency width and a
  membership size that are not zero are ready, and stay ready.
\<close>

lemma Sample_reservoirs_bounded:
  assumes "Sample as metric u r = Inr (as', sampled, b)"
    and "\<forall>stratum rs. as_reservoirs as stratum = Some rs
           \<longrightarrow> RS_Size rs \<le> rs_capacity rs \<and> rs_capacity rs = ReservoirSize (as_config as)"
  shows "as_config as' = as_config as
       \<and> (\<forall>stratum rs. as_reservoirs as' stratum = Some rs
             \<longrightarrow> RS_Size rs \<le> ReservoirSize (as_config as')
                 \<and> rs_capacity rs = ReservoirSize (as_config as'))"
proof (cases "u < calculateSamplingRate as metric")
  case False
  with assms(1) have "as_config as' = as_config as" and "as_reservoirs as' = as_reservoirs as"
    by (auto simp add: Sample_def ShouldSample_def Let_def calculateSamplingRate_counters)
  with assms(2) show ?thesis by (metis (no_types))
next
  case True
  define as1 where "as1 = updateStatistics
      (as\<lparr>as_totalProcessed := as_totalProcessed as + 1,
           as_totalSampled := as_totalSampled as + 1\<rparr>) metric"
  have cfg1: "as_config as1 = as_config as" and res1: "as_reservoirs as1 = as_reservoirs as"
    by (simp_all add: as1_def updateStatistics_def Let_def)
  from True assms(1) obtain as2 rs0 rs1 where
    get: "getOrCreateReservoir as1 (getStratum metric) = Inr (as2, rs0)"
    and add: "RS_Add rs0 metric r = Inr (rs1, sampled)"
    and as': "as' = as2\<lparr>as_reservoirs := (as_reservoirs as2)(getStratum metric \<mapsto> rs1)\<rparr>"
    by (auto simp add: Sample_def ShouldSample_def Let_def calculateSamplingRate_counters as1_def
        split: sum.splits prod.splits)
  from get have cfg2: "as_config as2 = as_config as1"
    by (auto simp add: getOrCreateReservoir_def split: option.splits sum.splits)
  have bounded: "RS_Size rs \<le> rs_capacity rs \<and> rs_capacity rs = ReservoirSize (as_config as)"
    if "as_reservoirs as stratum = Some rs" for stratum rs
    using assms(2) that by blast
  have both: "(RS_Size rs0 \<le> rs_capacity rs0 \<and> rs_capacity rs0 = ReservoirSize (as_config as))
      \<and> (\<forall>stratum rs. as_reservoirs as2 stratum = Some rs
           \<longrightarrow> RS_Size rs \<le> rs_capacity rs \<and> rs_capacity rs = ReservoirSize (as_config as))"
  proof (cases "as_reservoirs as1 (getStratum metric)")
    case (Some rs)
    with get have same: "rs0 = rs" "as2 = as1" by (simp_all add: getOrCreateReservoir_def)
    from Some same res1 have "as_reservoirs as (getStratum metric) = Some rs0" by simp
    then have "RS_Size rs0 \<le> rs_capacity rs0 \<and> rs_capacity rs0 = ReservoirSize (as_config as)"
      by (rule bounded)
    moreover have "\<forall>stratum rs. as_reservoirs as2 stratum = Some rs
           \<longrightarrow> RS_Size rs \<le> rs_capacity rs \<and> rs_capacity rs = ReservoirSize (as_config as)"
      using assms(2) by (simp only: same res1)
    ultimately show ?thesis by blast
  next
    case None
    with get have new: "NewReservoirSampler (ReservoirSize (as_config as)) = Inr rs0"
      and as2: "as_reservoirs as2 = (as_reservoirs as)(getStratum metric \<mapsto> rs0)"
      by (auto simp add: getOrCreateReservoir_def cfg1 res1 split: sum.splits)
    from new
    have fresh: "RS_Size rs0 \<le> rs_capacity rs0 \<and> rs_capacity rs0 = ReservoirSize (as_config as)"
      by (auto simp add: NewReservoirSampler_def RS_Size_def split: if_splits)
    moreover have "\<forall>stratum rs. as_reservoirs as2 stratum = Some rs
           \<longrightarrow> RS_Size rs \<le> rs_capacity rs \<and> rs_capacity rs = ReservoirSize (as_config as)"
    proof (intro allI impI)
      fix stratum rs assume "as_reservoirs as2 stratum = Some rs"
      with as2 fresh bounded [of stratum rs]
      show "RS_Size rs \<le> rs_capacity rs \<and> rs_capacity rs = ReservoirSize (as_config as)"
        by (cases "stratum = getStratum metric") simp_all
    qed
    ultimately show ?thesis by blast
  qed
  then have rs0: "RS_Size rs0 \<le> rs_capacity rs0 \<and> rs_capacity rs0 = ReservoirSize (as_config as)"
    and others: "\<forall>stratum rs. as_reservoirs as2 stratum = Some rs
           \<longrightarrow> RS_Size rs \<le> rs_capacity rs \<and> rs_capacity rs = ReservoirSize (as_config as)"
    by blast+
  from RS_Add_size [OF add] rs0
  have rs1: "RS_Size rs1 \<le> rs_capacity rs1 \<and> rs_capacity rs1 = ReservoirSize (as_config as)"
    by simp
  have "RS_Size rs \<le> ReservoirSize (as_config as') \<and> rs_capacity rs = ReservoirSize (as_config as')"
    if "as_reservoirs as' stratum = Some rs" for stratum rs
  proof (cases "stratum = getStratum metric")
    case True
    with that as' have "rs = rs1" by simp
    with rs1 as' cfg1 cfg2 show ?thesis by simp
  next
    case False
    with that as' have "as_reservoirs as2 stratum = Some rs" by simp
    with others have "RS_Size rs \<le> rs_capacity rs \<and> rs_capacity rs = ReservoirSize (as_config as)"
      by blast
    with as' cfg1 cfg2 show ?thesis by simp
  qed
  with as' cfg1 cfg2 show ?thesis by simp
qed

lemma NewQueryEngine_ready:
  assumes "CMSWidth config \<noteq> 0" and "BloomSize config \<noteq> 0"
  shows "sketches_ready (NewQueryEngine config now)"
proof -
  define p where "p = (if HLLPrecision config < 4 \<or> HLLPrecision config > 16
                       then 14 else HLLPrecision config)"
  have range: "4 \<le> p \<and> p \<le> 16" by (simp add: p_def not_less)
  with precision_cases [of p] have "unat p < 32" by simp
  from unat_push_bit_one_32 [OF this]
  have hll: "hll_precision (NewHyperLogLog (HLLPrecision config)) = p
      \<and> length (hll_buckets (NewHyperLogLog (HLLPrecision config))) = 2 ^ unat p"
    by (simp add: NewHyperLogLog_def Let_def p_def)
  with range assms show ?thesis
    by (simp add: sketches_ready_def NewQueryEngine_def NewCountMinSketch_def
        NewBloomFilter_def cms_shape_def)
qed

lemma ProcessMetric_ready:
  assumes "ProcessMetric qe metric u r = Inr qe'" and "sketches_ready qe"
  shows "sketches_ready qe'"
proof -
  from assms(1) obtain sampler sampled b where
    sm: "Sample (qe_sampler qe) metric u r = Inr (sampler, sampled, b)"
    by (auto simp add: ProcessMetric_def split: sum.splits)
  from assms(2) have ready: "sketches_ready (qe\<lparr>qe_sampler := sampler\<rparr>)"
    by (simp add: sketches_ready_def)
  show ?thesis
  proof (cases "sampled \<noteq> None \<and> b")
    case False
    with assms(1) sm have "qe' = count_sample (qe\<lparr>qe_sampler := sampler\<rparr>)"
      by (auto simp add: ProcessMetric_def Let_def split: option.splits)
    with assms(2) show ?thesis by (simp add: sketches_ready_def count_sample_def)
  next
    case True
    then obtain s where s: "sampled = Some s" and b: "b" by auto
    from updateDataStructures_ready [OF ready, of s]
    obtain qe1 where upd: "updateDataStructures (qe\<lparr>qe_sampler := sampler\<rparr>) s = Inr qe1"
      and r1: "sketches_ready qe1"
      by blast
    from assms(1) sm s b upd have "\<exists>l. qe' = count_sample (qe1\<lparr>qe_samples := l\<rparr>)"
      by (auto simp add: ProcessMetric_def Let_def)
    with r1 show ?thesis by (auto simp add: sketches_ready_def count_sample_def)
  qed
qed

lemma ProcessMetrics_ready:
  assumes "ProcessMetrics qe ops = Inr qe'" and "sketches_ready qe"
  shows "sketches_ready qe'"
  using assms
proof (induction ops arbitrary: qe)
  case Nil
  then show ?case by simp
next
  case (Cons op ops)
  obtain metric u r where op: "op = (metric, u, r)" by (cases op)
  from Cons.prems(1) op obtain qe1 where one: "ProcessMetric qe metric u r = Inr qe1"
    and rest: "ProcessMetrics qe1 ops = Inr qe'"
    by (auto split: sum.splits)
  from ProcessMetric_ready [OF one Cons.prems(2)] Cons.IH [OF rest] show ?case by simp
qed

end
